theory Spec2Isabelle
  imports Complex_Main
begin

section \<open>Numerical kernels of the tilted-stable sampler\<close>

text \<open>
  \<^verbatim>\<open>ExpTiltedStableDist.sinc\<close> (rand_exp_tilted_stable.py, lines 112-121), over exact reals:
  the thresholds \<^verbatim>\<open>0.006\<close> and \<^verbatim>\<open>2e-4\<close> are the rationals 6/1000 and 2/10000.
\<close>

definition sinc :: "real \<Rightarrow> real" where
  "sinc x =
     (let ax = \<bar>x\<bar> in
      if ax < 6 / 1000 then
        (if x = 0 then 1
         else let x2 = x * x in
           if ax < 2 / 10000 then 1 - x2 / 6
           else 1 - x2 / 6 * (1 - x2 / 20))
      else sin x / x)"

section \<open>Python and numpy primitives used by the Cox model\<close>

text \<open>
  Exceptions are values. \<open>ValueError\<close> carries which message was raised, so that the
  four configuration errors of cox_model.py stay distinguishable from numpy's own
  \<open>ValueError\<close>s (shape mismatch in broadcasting, reduction of an empty array) and from
  \<^verbatim>\<open>math domain error\<close>.
\<close>

datatype value_error =
    EventTimesNotSorted
  | CensoringTimesNotSorted
  | NeverInRiskSet
  | InconsistentCensoringIndicators
  | BroadcastMismatch
  | MathDomain
  | EmptyReduction

datatype py_error =
    ValueError value_error
  | IndexError
  | ZeroDivisionError
  | TypeError
  | UnboundLocalError
  | AssertionError
  | OverflowError

text \<open>
  The slices \<^verbatim>\<open>arr[i:]\<close> and \<^verbatim>\<open>arr[:j]\<close> with Python's treatment of a negative bound
  (counted from the end, clipped at 0); a bound beyond the end is clipped by
  \<open>drop\<close> and \<open>take\<close> themselves.
\<close>

definition py_from :: "'a list \<Rightarrow> int \<Rightarrow> 'a list" where
  "py_from xs i =
     (let n = int (length xs) in drop (nat (if i < 0 then max 0 (n + i) else i)) xs)"

definition py_upto :: "'a list \<Rightarrow> int \<Rightarrow> 'a list" where
  "py_upto xs j =
     (let n = int (length xs) in take (nat (if j < 0 then max 0 (n + j) else j)) xs)"

text \<open>\<^verbatim>\<open>np.cumsum\<close> on a one-dimensional float array, as a running sum over exact reals.\<close>

fun cumsum_from :: "real \<Rightarrow> real list \<Rightarrow> real list" where
  "cumsum_from acc [] = []"
| "cumsum_from acc (x # xs) = (acc + x) # cumsum_from (acc + x) xs"

definition np_cumsum :: "real list \<Rightarrow> real list" where
  "np_cumsum xs = cumsum_from 0 xs"

text \<open>
  Indexing an array with an integer index array, \<^verbatim>\<open>xs[idx]\<close>: an index in \<open>[-n, n)\<close> is
  accepted, a negative one counts from the end, anything else raises \<^verbatim>\<open>IndexError\<close>.
\<close>

definition np_take :: "'a list \<Rightarrow> int list \<Rightarrow> py_error + 'a list" where
  "np_take xs idx =
     (let n = int (length xs) in
      if list_all (\<lambda>i. - n \<le> i \<and> i < n) idx
      then Inr (map (\<lambda>i. xs ! nat (if i < 0 then i + n else i)) idx)
      else Inl IndexError)"

text \<open>
  Elementwise \<^verbatim>\<open>+\<close> of two one-dimensional arrays with numpy's broadcasting: equal lengths,
  or one operand of length 1 that is stretched; otherwise \<^verbatim>\<open>ValueError\<close>.
\<close>

definition np_add :: "real list \<Rightarrow> real list \<Rightarrow> py_error + real list" where
  "np_add xs ys =
     (if length xs = length ys then Inr (map2 (+) xs ys)
      else if length xs = 1 then Inr (map (\<lambda>y. hd xs + y) ys)
      else if length ys = 1 then Inr (map (\<lambda>x. x + hd ys) xs)
      else Inl (ValueError BroadcastMismatch))"

text \<open>\<^verbatim>\<open>CoxModel.np_reverse_cumsum\<close> (cox_model.py, lines 160-162): \<^verbatim>\<open>np.cumsum(arr[::-1])[::-1]\<close>.\<close>

definition np_reverse_cumsum :: "real list \<Rightarrow> real list" where
  "np_reverse_cumsum arr = rev (np_cumsum (rev arr))"

text \<open>
  \<^verbatim>\<open>CoxModel._sum_over_risk_set\<close> (cox_model.py, lines 142-158). The index array holds
  integers, which may be negative.
\<close>

definition sum_over_risk_set :: "real list \<Rightarrow> int list \<Rightarrow> py_error + real list" where
  "sum_over_risk_set arr risk_set_end_index =
     (let n_event = int (length risk_set_end_index) in
      case np_take (np_cumsum (py_from arr (n_event - 1)))
                   (map (\<lambda>r. r - n_event + 1) risk_set_end_index) of
        Inl e \<Rightarrow> Inl e
      | Inr sum_from_right_over_risk_set \<Rightarrow>
          let sum_from_left_over_risk_set =
                np_reverse_cumsum (py_upto arr (n_event - 1)) @ [0]
          in np_add sum_from_right_over_risk_set sum_from_left_over_risk_set)"

section \<open>Observation sets and the CoxModel constructor\<close>

text \<open>
  An event or censoring time is a finite real or \<^verbatim>\<open>float('inf')\<close>; \<open>t_less\<close> and \<open>t_le\<close>
  are \<^verbatim>\<open><\<close> and \<^verbatim>\<open><=\<close> on such values. The two time arrays of one observation set are
  parallel arrays; the theorems below say so by the hypothesis that their lengths agree.
\<close>

datatype pytime = At real | PosInf

fun t_less :: "pytime \<Rightarrow> pytime \<Rightarrow> bool" where
  "t_less (At x) (At y) = (x < y)"
| "t_less (At x) PosInf = True"
| "t_less PosInf b = False"

fun t_le :: "pytime \<Rightarrow> pytime \<Rightarrow> bool" where
  "t_le (At x) (At y) = (x \<le> y)"
| "t_le a PosInf = True"
| "t_le PosInf (At y) = False"

text \<open>
  The attributes set by \<^verbatim>\<open>CoxModel.__init__\<close>. The design matrix is a list of rows.
\<close>

record CoxModel =
  n_event :: nat
  event_time :: "pytime list"
  censoring_time :: "pytime list"
  n_appearance_in_risk_set :: "int list"
  risk_set_end_index :: "int list"
  model_X :: "real list list"

text \<open>
  \<^verbatim>\<open>CoxModel.count_risk_set_appearance\<close> (lines 95-106): the loop over the finite event
  times is a \<open>fold\<close>; each pass adds one to the entries selected by the boolean mask
  \<^verbatim>\<open>np.logical_and(censoring_time >= t, event_time >= t)\<close>.
\<close>

definition count_risk_set_appearance :: "pytime list \<Rightarrow> pytime list \<Rightarrow> int list" where
  "count_risk_set_appearance et ct =
     fold (\<lambda>t n_appearance.
             map2 (\<lambda>(c, e) a. if t_le t c \<and> t_le t e then a + 1 else a) (zip ct et) n_appearance)
          (filter (\<lambda>t. t_less t PosInf) et)
          (replicate (length ct) 0)"

text \<open>
  \<^verbatim>\<open>CoxModel.__init__\<close> (lines 9-49): three checks, each raising its own \<^verbatim>\<open>ValueError\<close>, then
  the derived state. \<^verbatim>\<open>event_time[:-1] > event_time[1:]\<close> compares every entry with its
  successor.
\<close>

definition CoxModel_init ::
  "pytime list \<Rightarrow> pytime list \<Rightarrow> real list list \<Rightarrow> py_error + CoxModel" where
  "CoxModel_init et ct X =
     (if list_ex (\<lambda>(a, b). t_less b a) (zip (butlast et) (tl et))
      then Inl (ValueError EventTimesNotSorted)
      else if list_ex (\<lambda>(a, b). t_less a b) (zip (butlast ct) (tl ct))
      then Inl (ValueError CensoringTimesNotSorted)
      else
        let n_appearance = count_risk_set_appearance et ct in
        if \<not> list_all (\<lambda>a. 1 \<le> a) n_appearance
        then Inl (ValueError NeverInRiskSet)
        else
          let n_ev = length et - length (filter (\<lambda>t. t = PosInf) et) in
          Inr \<lparr> n_event = n_ev,
                event_time = et,
                censoring_time = ct,
                n_appearance_in_risk_set = n_appearance,
                risk_set_end_index =
                  map (\<lambda>t. int (length (filter (\<lambda>c. t_less t c) ct)) - 1) (take n_ev et),
                model_X = X \<rparr>)"

section \<open>The tilted-stable sampler \<^verbatim>\<open>ExpTiltedStableDist.rv\<close>\<close>

text \<open>
  The arguments \<open>alpha\<close> and \<open>lam\<close> and every intermediate value are exact reals: the
  embedding is of \<open>rv\<close> called with finite Python floats. \<^verbatim>\<open>nan\<close>, \<^verbatim>\<open>inf\<close> and numpy-scalar
  arguments (whose \<^verbatim>\<open>**\<close> and \<^verbatim>\<open>/\<close> give \<^verbatim>\<open>nan\<close> or \<^verbatim>\<open>inf\<close> instead of raising) are
  outside it, and so is rounding. An operation of the \<^verbatim>\<open>math\<close> module or of Python's
  \<^verbatim>\<open>float\<close> that raises does so in the embedding: \<^verbatim>\<open>math.sqrt\<close> of a negative number,
  \<^verbatim>\<open>math.log\<close> of a non-positive one and \<^verbatim>\<open>math.pow\<close> outside its domain raise
  \<^verbatim>\<open>ValueError: math domain error\<close>; a float division by zero raises
  \<^verbatim>\<open>ZeroDivisionError\<close>; \<^verbatim>\<open>**\<close> raises \<^verbatim>\<open>OverflowError\<close> when its result leaves the
  range of a binary64 float.
\<close>

definition err_bind :: "'e + 'a \<Rightarrow> ('a \<Rightarrow> 'e + 'b) \<Rightarrow> 'e + 'b" where
  "err_bind r f = (case r of Inl e \<Rightarrow> Inl e | Inr v \<Rightarrow> f v)"

text \<open>
  Python's \<^verbatim>\<open>x ** y\<close> on floats: \<^verbatim>\<open>0.0\<close> to a negative power raises
  \<^verbatim>\<open>ZeroDivisionError\<close>, a negative base with a non-integral exponent gives a
  \<^verbatim>\<open>complex\<close> result instead of raising, and a result too large for a float raises
  \<^verbatim>\<open>OverflowError\<close> (for a complex result too). The bound is \<open>2 ^ 1024 - 2 ^ 970\<close>,
  the least real that rounds to infinity in binary64 (the largest float is
  \<open>2 ^ 1024 - 2 ^ 971\<close>). \<^verbatim>\<open>math.pow\<close> raises \<^verbatim>\<open>ValueError\<close> in the first two cases.
\<close>

definition is_integral :: "real \<Rightarrow> bool" where
  "is_integral y = (y = of_int \<lfloor>y\<rfloor>)"

datatype pynum = PyFloat real | PyComplex

definition float_overflow_bound :: real where
  "float_overflow_bound = 2 ^ 1024 - 2 ^ 970"

definition py_pow :: "real \<Rightarrow> real \<Rightarrow> py_error + pynum" where
  "py_pow x y =
     (if y = 0 then Inr (PyFloat 1)
      else if x = 0 then (if y < 0 then Inl ZeroDivisionError else Inr (PyFloat 0))
      else if x < 0 then
        (if is_integral y then
           (if float_overflow_bound \<le> \<bar>x powi \<lfloor>y\<rfloor>\<bar> then Inl OverflowError
            else Inr (PyFloat (x powi \<lfloor>y\<rfloor>)))
         else
           (if float_overflow_bound \<le> \<bar>x\<bar> powr y then Inl OverflowError
            else Inr PyComplex))
      else
        (if float_overflow_bound \<le> x powr y then Inl OverflowError
         else Inr (PyFloat (x powr y))))"

definition math_pow :: "real \<Rightarrow> real \<Rightarrow> py_error + real" where
  "math_pow x y =
     (if y = 0 then Inr 1
      else if x = 0 then (if y < 0 then Inl (ValueError MathDomain) else Inr 0)
      else if x < 0 then
        (if is_integral y then Inr (x powi \<lfloor>y\<rfloor>) else Inl (ValueError MathDomain))
      else Inr (x powr y))"

definition math_sqrt :: "real \<Rightarrow> py_error + real" where
  "math_sqrt x = (if x < 0 then Inl (ValueError MathDomain) else Inr (sqrt x))"

definition math_log :: "real \<Rightarrow> py_error + real" where
  "math_log x = (if x \<le> 0 then Inl (ValueError MathDomain) else Inr (ln x))"

definition py_div :: "real \<Rightarrow> real \<Rightarrow> py_error + real" where
  "py_div x y = (if y = 0 then Inl ZeroDivisionError else Inr (x / y))"

text \<open>
  The constants computed by lines 25-36 of rand_exp_tilted_stable.py, in the order of the
  source. When \<^verbatim>\<open>lam ** alpha\<close> is complex, so is \<^verbatim>\<open>gamma\<close>, and \<^verbatim>\<open>sqrt(gamma)\<close> on
  line 28 raises \<^verbatim>\<open>TypeError\<close>. There is no other check of \<open>alpha\<close> or \<open>lam\<close>. Where
  \<^verbatim>\<open>lam ** alpha\<close> underflows to \<^verbatim>\<open>0.0\<close> the float \<^verbatim>\<open>gamma\<close> is a zero and the code raises
  \<^verbatim>\<open>ZeroDivisionError\<close> on line 34, where the exact \<open>gamma\<close> is negative and the
  embedding raises \<^verbatim>\<open>ValueError\<close> on line 28: under rounding the exception raised can be
  another one of those listed, never none.
\<close>

record rv_consts =
  k_alpha :: real
  k_lam :: real
  k_b :: real
  k_lam_alpha :: real
  k_gamma :: real
  k_sqrt_gamma :: real
  k_c1 :: real
  k_c2 :: real
  k_c3 :: real
  k_xi :: real
  k_psi :: real
  k_w1 :: real
  k_w2 :: real
  k_w3 :: real

definition rv_constants :: "real \<Rightarrow> real \<Rightarrow> py_error + rv_consts" where
  "rv_constants alpha lam =
     err_bind (py_div (1 - alpha) alpha) (\<lambda>b.
     err_bind (py_pow lam alpha) (\<lambda>lam_alpha_value.
     (case lam_alpha_value of
       PyComplex \<Rightarrow> Inl TypeError
     | PyFloat lam_alpha \<Rightarrow>
         let gamma = lam_alpha * alpha * (1 - alpha) in
         err_bind (math_sqrt gamma) (\<lambda>sqrt_gamma.
         err_bind (math_sqrt (pi / 2)) (\<lambda>c1.
         let c2 = 2 + c1;
             c3 = c2 * sqrt_gamma in
         err_bind (math_sqrt 2) (\<lambda>sqrt_2.
         let xi = (1 + sqrt_2 * c3) / pi in
         err_bind (math_sqrt pi) (\<lambda>sqrt_pi.
         let psi = c3 * exp (- gamma * pi * pi / 8) / sqrt_pi in
         err_bind (py_div (c1 * xi) sqrt_gamma) (\<lambda>w1.
         let w2 = 2 * sqrt_pi * psi;
             w3 = xi * pi in
         Inr \<lparr> k_alpha = alpha, k_lam = lam, k_b = b, k_lam_alpha = lam_alpha,
               k_gamma = gamma, k_sqrt_gamma = sqrt_gamma, k_c1 = c1, k_c2 = c2, k_c3 = c3,
               k_xi = xi, k_psi = psi, k_w1 = w1, k_w2 = w2, k_w3 = w3 \<rparr>))))))))"

text \<open>
  \<^verbatim>\<open>BdB0\<close> and \<^verbatim>\<open>A_3\<close> (lines 102-110).
\<close>

definition BdB0 :: "real \<Rightarrow> real \<Rightarrow> py_error + real" where
  "BdB0 x alpha =
     err_bind (math_pow (sinc (alpha * x)) alpha) (\<lambda>p1.
     err_bind (math_pow (sinc ((1 - alpha) * x)) (1 - alpha)) (\<lambda>p2.
     let denominator = p1 * p2;
         numerator = sinc x
     in py_div numerator denominator))"

definition A_3 :: "real \<Rightarrow> real \<Rightarrow> py_error + real" where
  "A_3 x alpha =
     err_bind (math_pow ((1 - alpha) * sinc ((1 - alpha) * x)) (1 - alpha)) (\<lambda>p1.
     err_bind (math_pow (alpha * sinc (alpha * x)) alpha) (\<lambda>p2.
     py_div (p1 * p2) (sinc x)))"

text \<open>
  The local variables of \<open>rv\<close> that live across loop passes; \<open>None\<close> is a variable not
  yet assigned. The random source is a sequence \<open>src\<close> of the values that successive calls
  of \<^verbatim>\<open>unif_rv()\<close> and \<^verbatim>\<open>normal_rv(0, 1)\<close> return, and \<open>pos\<close> counts the calls made so
  far. As in the source, \<open>aug_accepted\<close> is set to \<open>False\<close> once, before the outer loop
  (line 39).
\<close>

record rv_state =
  pos :: nat
  accepted :: bool
  aug_accepted :: bool
  var_U :: "real option"
  var_z :: "real option"
  var_Z :: "real option"
  var_X :: "real option"
  var_c :: "real option"
  var_E2 :: "real option"

definition rv_initial :: rv_state where
  "rv_initial = \<lparr> pos = 0, accepted = False, aug_accepted = False,
                   var_U = None, var_z = None, var_Z = None,
                   var_X = None, var_c = None, var_E2 = None \<rparr>"

definition read_var :: "real option \<Rightarrow> py_error + real" where
  "read_var v = (case v of None \<Rightarrow> Inl UnboundLocalError | Some x \<Rightarrow> Inr x)"

text \<open>
  One pass of the inner loop (lines 43-70): the draw of \<open>U\<close> (lines 43-55), then
  \<open>W2\<close>, \<open>zeta\<close>, \<open>z\<close>, \<open>rho\<close>, \<open>d\<close>, \<open>Z\<close> and the flag.
\<close>

definition draw_U :: "rv_consts \<Rightarrow> (nat \<Rightarrow> real) \<Rightarrow> nat \<Rightarrow> py_error + (real \<times> nat)" where
  "draw_U k src p =
     (let V1 = src p; p = p + 1 in
      if k_gamma k \<ge> 1 then
        err_bind (py_div (k_w1 k) (k_w1 k + k_w2 k)) (\<lambda>thr.
        if V1 < thr then
          err_bind (py_div \<bar>src p\<bar> (k_sqrt_gamma k)) (\<lambda>U. Inr (U, p + 1))
        else
          let W1 = src p in Inr (pi * (1 - W1 * W1), p + 1))
      else
        let W1 = src p; p = p + 1 in
        err_bind (py_div (k_w3 k) (k_w2 k + k_w3 k)) (\<lambda>thr.
        if V1 < thr then Inr (pi * W1, p)
        else Inr (pi * (1 - W1 * W1), p)))"

definition inner_pass :: "rv_consts \<Rightarrow> (nat \<Rightarrow> real) \<Rightarrow> rv_state \<Rightarrow> py_error + rv_state" where
  "inner_pass k src s =
     err_bind (draw_U k src (pos s)) (\<lambda>(U, p).
     let W2 = src p; p = p + 1 in
     err_bind (BdB0 U (k_alpha k)) (\<lambda>bdb0.
     err_bind (math_sqrt bdb0) (\<lambda>zeta.
     err_bind (py_div (k_alpha k * zeta) (k_sqrt_gamma k)) (\<lambda>q.
     err_bind (py_div (- 1) (k_alpha k)) (\<lambda>e.
     err_bind (math_pow (1 + q) e) (\<lambda>pw.
     err_bind (py_div 1 (1 - pw)) (\<lambda>z.
     err_bind (py_div 1 (zeta * zeta)) (\<lambda>izz.
     err_bind (py_div ((1 + k_c1 k) * k_sqrt_gamma k) zeta) (\<lambda>t.
     err_bind (py_div (pi * exp (- k_lam_alpha k * (1 - izz))) (t + z)) (\<lambda>rho.
     let d = 0;
         d = (if U \<ge> 0 \<and> k_gamma k \<ge> 1 then d + k_xi k * exp (- k_gamma k * U * U / 2) else d)
     in
     err_bind (if U > 0 \<and> U < pi
               then err_bind (math_sqrt (pi - U)) (\<lambda>r.
                    err_bind (py_div (k_psi k) r) (\<lambda>v. Inr (d + v)))
               else Inr d) (\<lambda>d.
     let d = (if U \<ge> 0 \<and> U \<le> pi \<and> k_gamma k < 1 then d + k_xi k else d);
         rho = rho * d;
         Z = W2 * rho
     in Inr (s\<lparr> pos := p, var_U := Some U, var_z := Some z, var_Z := Some Z,
                aug_accepted := (U < pi \<and> Z \<le> 1) \<rparr>))))))))))))"

partial_function (option) inner_loop ::
  "rv_consts \<Rightarrow> (nat \<Rightarrow> real) \<Rightarrow> rv_state \<Rightarrow> (py_error + rv_state) option" where
  "inner_loop k src s =
     (if aug_accepted s then Some (Inr s)
      else case inner_pass k src s of
             Inl e \<Rightarrow> Some (Inl e)
           | Inr s' \<Rightarrow> inner_loop k src s')"

text \<open>
  The rest of one pass of the outer loop (lines 72-98): the draw of \<open>X\<close> (lines 78-89)
  returns \<open>(X, N, E1)\<close> and the new position; \<open>c\<close> and \<open>E2\<close> are assigned only when
  \<open>X > 0\<close>, and the test \<^verbatim>\<open>X >= 0 and c <= E2\<close> reads them only when \<open>X \<ge> 0\<close>.
\<close>

definition draw_X ::
  "(nat \<Rightarrow> real) \<Rightarrow> nat \<Rightarrow> real \<Rightarrow> real \<Rightarrow> real \<Rightarrow> real \<Rightarrow> real
     \<Rightarrow> py_error + (real \<times> real \<times> real \<times> nat)" where
  "draw_X src p m delta a1 a3 s =
     (let V2 = src p; p = p + 1; N = 0; E1 = 0 in
      err_bind (py_div a1 s) (\<lambda>thr1.
      if V2 < thr1 then
        let N = src p in Inr (m - delta * \<bar>N\<bar>, N, E1, p + 1)
      else
        err_bind (py_div (a1 + delta) s) (\<lambda>thr2.
        if V2 < thr2 then Inr (m + delta * src p, N, E1, p + 1)
        else
          err_bind (math_log (src p)) (\<lambda>l.
          let E1 = - l in Inr (m + delta + E1 * a3, N, E1, p + 1)))))"

definition outer_rest :: "rv_consts \<Rightarrow> (nat \<Rightarrow> real) \<Rightarrow> rv_state \<Rightarrow> py_error + rv_state" where
  "outer_rest k src s =
     err_bind (read_var (var_U s)) (\<lambda>U.
     err_bind (read_var (var_z s)) (\<lambda>z.
     err_bind (A_3 U (k_alpha k)) (\<lambda>a3u.
     err_bind (py_div 1 (1 - k_alpha k)) (\<lambda>e.
     err_bind (math_pow a3u e) (\<lambda>a.
     err_bind (py_div (k_b k) a) (\<lambda>ba.
     err_bind (math_pow ba (k_alpha k)) (\<lambda>pba.
     let m = pba * k_lam_alpha k in
     err_bind (py_div (m * k_alpha k) a) (\<lambda>q.
     err_bind (math_sqrt q) (\<lambda>delta.
     let a1 = delta * k_c1 k in
     err_bind (py_div z a) (\<lambda>a3.
     let s_sum = a1 + delta + a3 in
     err_bind (draw_X src (pos s) m delta a1 a3 s_sum) (\<lambda>(X, N, E1, p).
     err_bind
       (if X > 0 then
          err_bind (read_var (var_Z s)) (\<lambda>Z.
          err_bind (math_log Z) (\<lambda>lZ.
          let E2 = - lZ in
          err_bind (py_div 1 (k_alpha k)) (\<lambda>ia.
          err_bind (math_log (k_lam_alpha k)) (\<lambda>lla.
          err_bind (math_log m) (\<lambda>lm.
          err_bind (py_div m X) (\<lambda>mx.
          err_bind (math_pow mx (k_b k)) (\<lambda>pmx.
          let c = a * (X - m) + exp (ia * lla - k_b k * lm) * (pmx - 1);
              c = (if X < m then c - N * N / 2
                   else if X > m + delta then c - E1 else c)
          in Inr (Some c, Some E2))))))))
        else Inr (var_c s, var_E2 s)) (\<lambda>(c, E2).
     err_bind
       (if X \<ge> 0 then
          err_bind (read_var c) (\<lambda>cv.
          err_bind (read_var E2) (\<lambda>E2v. Inr (cv \<le> E2v)))
        else Inr False) (\<lambda>acc.
     Inr (s\<lparr> pos := p, var_X := Some X, var_c := c, var_E2 := E2, accepted := acc \<rparr>))))))))))))))"

text \<open>
  The two \<^verbatim>\<open>while\<close> loops may run forever; not returning is the value \<open>None\<close>.
  \<open>outer_pass\<close> is one pass of the outer loop body: the inner \<^verbatim>\<open>while\<close>, then the rest.
\<close>

definition outer_pass ::
  "rv_consts \<Rightarrow> (nat \<Rightarrow> real) \<Rightarrow> rv_state \<Rightarrow> (py_error + rv_state) option" where
  "outer_pass k src s =
     (case inner_loop k src s of
        None \<Rightarrow> None
      | Some (Inl e) \<Rightarrow> Some (Inl e)
      | Some (Inr s1) \<Rightarrow> Some (outer_rest k src s1))"

partial_function (option) outer_loop ::
  "rv_consts \<Rightarrow> (nat \<Rightarrow> real) \<Rightarrow> rv_state \<Rightarrow> (py_error + rv_state) option" where
  "outer_loop k src s =
     (if accepted s then Some (Inr s)
      else case outer_pass k src s of
             None \<Rightarrow> None
           | Some (Inl e) \<Rightarrow> Some (Inl e)
           | Some (Inr s') \<Rightarrow> outer_loop k src s')"

definition rv :: "real \<Rightarrow> real \<Rightarrow> (nat \<Rightarrow> real) \<Rightarrow> (py_error + real) option" where
  "rv alpha lam src =
     (case rv_constants alpha lam of
        Inl e \<Rightarrow> Some (Inl e)
      | Inr k \<Rightarrow>
          (case outer_loop k src rv_initial of
             None \<Rightarrow> None
           | Some (Inl e) \<Rightarrow> Some (Inl e)
           | Some (Inr s) \<Rightarrow>
               Some (err_bind (read_var (var_X s)) (\<lambda>X. math_pow X (- k_b k)))))"

text \<open>
  A random source for one concrete run of \<open>rv(0.5, 1)\<close>: the uniform draws are 0 except
  the third (\<open>W2 = 1/2\<close>), and the first normal draw is 2.
\<close>

definition rejected_once_src :: "nat \<Rightarrow> real" where
  "rejected_once_src n = (if n = 2 then 1 / 2 else if n = 4 then 2 else 0)"

section \<open>Permuting the observations\<close>

text \<open>
  \<^verbatim>\<open>np.argsort\<close> belongs to numpy, not to this repository, and its default sort is not
  stable: for equal keys the order of the indices is not specified. The embedding takes it
  as a parameter, one function for each element type it is applied to (times, index
  arrays, float arrays), and the theorems assume of it only numpy's contract
  \<open>is_argsort\<close>: the result is a permutation of the indices along which the keys are in
  order.
\<close>

definition is_argsort :: "('a \<Rightarrow> 'a \<Rightarrow> bool) \<Rightarrow> ('a list \<Rightarrow> nat list) \<Rightarrow> bool" where
  "is_argsort le f =
     (\<forall>xs. distinct (f xs) \<and> set (f xs) = {0..<length xs}
           \<and> sorted_wrt le (map ((!) xs) (f xs)))"

record argsorts =
  on_times :: "pytime list \<Rightarrow> nat list"
  on_indices :: "nat list \<Rightarrow> nat list"
  on_floats :: "real list \<Rightarrow> nat list"

text \<open>
  \<^verbatim>\<open>CoxModel.np_rank_by_value\<close> (lines 89-93): \<^verbatim>\<open>np.arange(len(arr))[np.argsort(sort_arguments)]\<close>,
  converted to float.
\<close>

definition np_rank_by_value :: "argsorts \<Rightarrow> pytime list \<Rightarrow> py_error + real list" where
  "np_rank_by_value S arr =
     (let sort_arguments = on_times S arr in
      err_bind (np_take [0..<length arr] (map int (on_indices S sort_arguments))) (\<lambda>rank.
      Inr (map real rank)))"

text \<open>
  \<^verbatim>\<open>CoxModel.permute_observations_by_event_and_censoring_time\<close> (lines 51-87), for a dense
  design matrix given as a list of rows. The check of the censoring indicators compares
  \<^verbatim>\<open>event_time == inf\<close> with \<^verbatim>\<open>censoring_time < inf\<close> entry by entry; the \<^verbatim>\<open>assert\<close> on
  line 79 raises \<^verbatim>\<open>AssertionError\<close> when \<open>sort_ind\<close> has a repeated index.
\<close>

definition permute_observations_by_event_and_censoring_time ::
  "argsorts \<Rightarrow> pytime list \<Rightarrow> pytime list \<Rightarrow> real list list
     \<Rightarrow> py_error + (pytime list \<times> pytime list \<times> real list list)" where
  "permute_observations_by_event_and_censoring_time S et ct X =
     (if \<not> list_all (\<lambda>(e, c). (e = PosInf) = t_less c PosInf) (zip et ct)
      then Inl (ValueError InconsistentCensoringIndicators)
      else
        let n_ev = length (filter (\<lambda>e. t_less e PosInf) et) in
        err_bind (np_rank_by_value S et) (\<lambda>event_rank.
        err_bind (np_rank_by_value S ct) (\<lambda>censoring_rank.
        let sort_ind = take n_ev (on_floats S event_rank)
                       @ drop n_ev (on_floats S (map uminus censoring_rank)) in
        if \<not> distinct sort_ind then Inl AssertionError
        else
          err_bind (np_take et (map int sort_ind)) (\<lambda>et'.
          err_bind (np_take ct (map int sort_ind)) (\<lambda>ct'.
          err_bind (np_take X (map int sort_ind)) (\<lambda>X'.
          Inr (et', ct', X')))))))"

text \<open>
  One function that satisfies \<open>is_argsort\<close>, to run the permutation on concrete arrays:
  a stable insertion sort of the indices.
\<close>

fun insert_by :: "('a \<Rightarrow> 'a \<Rightarrow> bool) \<Rightarrow> 'a \<Rightarrow> 'a list \<Rightarrow> 'a list" where
  "insert_by le x [] = [x]"
| "insert_by le x (y # ys) = (if le x y then x # y # ys else y # insert_by le x ys)"

definition argsort_by :: "('a \<Rightarrow> 'a \<Rightarrow> bool) \<Rightarrow> 'a list \<Rightarrow> nat list" where
  "argsort_by le xs = foldr (insert_by (\<lambda>i j. le (xs ! i) (xs ! j))) [0..<length xs] []"

definition stable_argsorts :: argsorts where
  "stable_argsorts = \<lparr> on_times = argsort_by t_le, on_indices = argsort_by (\<le>),
                        on_floats = argsort_by (\<le>) \<rparr>"

section \<open>The implicit hazard matrix\<close>

text \<open>
  More numpy on one-dimensional float arrays: an elementwise binary operation with
  broadcasting, \<^verbatim>\<open>arr ** -1\<close>, indexing with one integer (a negative one counts from the
  end), and the slice assignment \<^verbatim>\<open>arr[i:] = c\<close> with Python's treatment of a negative or
  too large bound. numpy gives \<^verbatim>\<open>inf\<close> for the reciprocal of zero; the theorems apply
  \<open>np_recip\<close> to positive entries only.
\<close>

definition np_broadcast ::
  "(real \<Rightarrow> real \<Rightarrow> real) \<Rightarrow> real list \<Rightarrow> real list \<Rightarrow> py_error + real list" where
  "np_broadcast f xs ys =
     (if length xs = length ys then Inr (map2 f xs ys)
      else if length xs = 1 then Inr (map (\<lambda>y. f (hd xs) y) ys)
      else if length ys = 1 then Inr (map (\<lambda>x. f x (hd ys)) xs)
      else Inl (ValueError BroadcastMismatch))"

definition np_mul :: "real list \<Rightarrow> real list \<Rightarrow> py_error + real list" where
  "np_mul = np_broadcast (*)"

definition np_sub :: "real list \<Rightarrow> real list \<Rightarrow> py_error + real list" where
  "np_sub = np_broadcast (-)"

definition np_recip :: "real list \<Rightarrow> real list" where
  "np_recip xs = map (\<lambda>x. 1 / x) xs"

definition np_index :: "'a list \<Rightarrow> int \<Rightarrow> py_error + 'a" where
  "np_index xs i =
     (let n = int (length xs) in
      if - n \<le> i \<and> i < n then Inr (xs ! nat (if i < 0 then i + n else i))
      else Inl IndexError)"

definition py_assign_from :: "'a list \<Rightarrow> int \<Rightarrow> 'a \<Rightarrow> 'a list" where
  "py_assign_from xs i c =
     (let n = int (length xs);
          start = nat (if i < 0 then max 0 (n + i) else min i n)
      in take start xs @ replicate (length xs - start) c)"

text \<open>
  \<^verbatim>\<open>CoxModel._HazardMultinomialProbMatrix\<close> (lines 226-275): its attributes and its
  methods \<open>sum_over_events\<close>, \<open>dot\<close>, \<open>Tdot\<close> and \<open>compute_matrix\<close>. In
  \<open>sum_over_events\<close> the entry \<^verbatim>\<open>risk_set_end_index[0]\<close> is read after \<open>row_sum\<close> is
  computed, and raises \<^verbatim>\<open>IndexError\<close> on an empty index array.
\<close>

record HazardMatrix =
  hm_hazard_increase :: "real list"
  hm_sum_over_risk_set :: "real list"
  hm_risk_set_end_index :: "int list"
  hm_n_appearance_in_risk_set :: "int list"
  hm_n_event :: nat

definition HazardMatrix_init ::
  "real list \<Rightarrow> real list \<Rightarrow> int list \<Rightarrow> int list \<Rightarrow> HazardMatrix" where
  "HazardMatrix_init hazard_increase sum_risk risk_set_end_idx n_appearance =
     \<lparr> hm_hazard_increase = hazard_increase,
       hm_sum_over_risk_set = sum_risk,
       hm_risk_set_end_index = risk_set_end_idx,
       hm_n_appearance_in_risk_set = n_appearance,
       hm_n_event = length sum_risk \<rparr>"

definition sum_over_events :: "HazardMatrix \<Rightarrow> py_error + real list" where
  "sum_over_events hm =
     (let normalizer_cumsum = np_cumsum (np_recip (hm_sum_over_risk_set hm)) in
      err_bind (np_take normalizer_cumsum
                  (map (\<lambda>a. a - 1) (hm_n_appearance_in_risk_set hm))) (\<lambda>picked.
      err_bind (np_mul picked (hm_hazard_increase hm)) (\<lambda>row_sum.
      err_bind (np_index (hm_risk_set_end_index hm) 0) (\<lambda>r0.
      if r0 + 1 < int (length (hm_hazard_increase hm))
      then Inr (py_assign_from row_sum (r0 + 1) 0)
      else Inr row_sum))))"

definition hm_dot :: "HazardMatrix \<Rightarrow> real list \<Rightarrow> py_error + real list" where
  "hm_dot hm v =
     err_bind (np_mul (hm_hazard_increase hm) v) (\<lambda>hv.
     err_bind (sum_over_risk_set hv (hm_risk_set_end_index hm)) (\<lambda>s.
     np_mul (np_recip (hm_sum_over_risk_set hm)) s))"

definition hm_Tdot :: "HazardMatrix \<Rightarrow> real list \<Rightarrow> py_error + real list" where
  "hm_Tdot hm v =
     err_bind (np_mul (np_recip (hm_sum_over_risk_set hm)) v) (\<lambda>w.
     let partial_inner_prod = np_cumsum w in
     err_bind (np_take partial_inner_prod
                 (map (\<lambda>a. a - 1) (hm_n_appearance_in_risk_set hm))) (\<lambda>picked.
     np_mul (hm_hazard_increase hm) picked))"

text \<open>
  \<open>compute_matrix\<close> (lines 264-275): \<^verbatim>\<open>np.outer\<close>, \<^verbatim>\<open>np.triu\<close>, then the loop over
  \<open>i = 1, ..., number of rows\<close>, which reads \<^verbatim>\<open>risk_set_end_index[-i]\<close>, stops at the first
  row whose risk set reaches the last individual (\<^verbatim>\<open>break\<close>), and otherwise zeroes the tail
  of row \<open>-i\<close>.
\<close>

definition np_outer :: "real list \<Rightarrow> real list \<Rightarrow> real list list" where
  "np_outer xs ys = map (\<lambda>x. map (\<lambda>y. x * y) ys) xs"

definition np_triu :: "real list list \<Rightarrow> real list list" where
  "np_triu M = map (\<lambda>(k, row). replicate (min k (length row)) 0 @ drop k row)
                   (zip [0..<length M] M)"

fun compute_matrix_loop ::
  "HazardMatrix \<Rightarrow> nat list \<Rightarrow> real list list \<Rightarrow> py_error + real list list" where
  "compute_matrix_loop hm [] M = Inr M"
| "compute_matrix_loop hm (i # rest) M =
     err_bind (np_index (hm_risk_set_end_index hm) (- int i)) (\<lambda>r.
     if r + 1 \<ge> int (length (hm_hazard_increase hm)) then Inr M
     else compute_matrix_loop hm rest
            (M[length M - i := py_assign_from (M ! (length M - i)) (r + 1) 0]))"

definition compute_matrix :: "HazardMatrix \<Rightarrow> py_error + real list list" where
  "compute_matrix hm =
     (let multinomial_prob = np_outer (np_recip (hm_sum_over_risk_set hm)) (hm_hazard_increase hm);
          multinomial_prob = np_triu multinomial_prob
      in compute_matrix_loop hm [1..<length multinomial_prob + 1] multinomial_prob)"

text \<open>
  The same operations on an explicit matrix, given as the list of its rows with \<open>n\<close>
  columns: \<open>M \<cdot> v\<close>, \<open>M\<^sup>T \<cdot> u\<close> and the column sums.
\<close>

definition mat_vec :: "real list list \<Rightarrow> real list \<Rightarrow> real list" where
  "mat_vec M v = map (\<lambda>row. sum_list (map2 (*) row v)) M"

definition mat_T_vec :: "real list list \<Rightarrow> nat \<Rightarrow> real list \<Rightarrow> real list" where
  "mat_T_vec M n u = map (\<lambda>i. sum_list (map2 (\<lambda>row uk. row ! i * uk) M u)) [0..<n]"

definition column_sums :: "real list list \<Rightarrow> nat \<Rightarrow> real list" where
  "column_sums M n = map (\<lambda>i. sum_list (map (\<lambda>row. row ! i) M)) [0..<n]"

section \<open>Log-likelihood and gradient\<close>

text \<open>
  Modelled from the spec: the design-matrix abstraction behind \<^verbatim>\<open>self.X\<close>, which is not among
  the source files. The spec asks of it \<^verbatim>\<open>dot(vector)\<close>, the matrix times a vector, and
  \<^verbatim>\<open>Tdot(vector)\<close>, the transpose times a vector; here the matrix is the list of its rows.
\<close>

definition X_dot :: "real list list \<Rightarrow> real list \<Rightarrow> real list" where
  "X_dot X beta = map (\<lambda>row. sum_list (map2 (*) row beta)) X"

definition X_Tdot :: "real list list \<Rightarrow> real list \<Rightarrow> real list" where
  "X_Tdot X v =
     map (\<lambda>j. sum_list (map2 (\<lambda>row vi. row ! j * vi) X v))
         [0..<(case X of [] \<Rightarrow> 0 | row # _ \<Rightarrow> length row)]"

text \<open>
  \<^verbatim>\<open>np.max\<close> raises \<^verbatim>\<open>ValueError\<close> on an empty array. \<open>np_isub\<close> is the in-place
  \<^verbatim>\<open>v -= w\<close>: only \<open>w\<close> may be stretched.
\<close>

fun np_max :: "real list \<Rightarrow> py_error + real" where
  "np_max [] = Inl (ValueError EmptyReduction)"
| "np_max (x # xs) = Inr (fold max xs x)"

definition np_isub :: "real list \<Rightarrow> real list \<Rightarrow> py_error + real list" where
  "np_isub v w =
     (if length w = length v then Inr (map2 (-) v w)
      else if length w = 1 then Inr (map (\<lambda>x. x - hd w) v)
      else Inl (ValueError BroadcastMismatch))"

text \<open>
  \<^verbatim>\<open>CoxModel._shift_log_hazard\<close> (lines 164-171), \<^verbatim>\<open>_compute_hazard_increase\<close> (lines
  130-140) and \<^verbatim>\<open>compute_loglik_and_gradient\<close> (lines 108-128). The functions with suffix
  \<open>_from\<close> are the bodies of the last two after \<^verbatim>\<open>self.X.dot(beta)\<close>, with the linear
  predictor as argument, so that a shifted predictor can be fed in. \<^verbatim>\<open>np.log\<close> is taken
  on positive sums only. The gradient is \<open>None\<close> when \<open>loglik_only\<close> is set.
\<close>

definition shift_log_hazard :: "real list \<Rightarrow> real \<Rightarrow> py_error + real list" where
  "shift_log_hazard log_hazard_rate log_offset =
     err_bind (np_max log_hazard_rate) (\<lambda>m.
     Inr (map (\<lambda>x. x + (log_offset - m)) log_hazard_rate))"

definition compute_hazard_increase_from ::
  "CoxModel \<Rightarrow> real list \<Rightarrow> py_error + (real list \<times> real list \<times> real list)" where
  "compute_hazard_increase_from mdl log_hazard =
     err_bind (shift_log_hazard log_hazard 0) (\<lambda>log_hazard_increase.
     let hazard_increase = map exp log_hazard_increase in
     err_bind (sum_over_risk_set hazard_increase (risk_set_end_index mdl)) (\<lambda>sum_risk.
     Inr (log_hazard_increase, hazard_increase, sum_risk)))"

definition compute_hazard_increase ::
  "CoxModel \<Rightarrow> real list \<Rightarrow> py_error + (real list \<times> real list \<times> real list)" where
  "compute_hazard_increase mdl beta = compute_hazard_increase_from mdl (X_dot (model_X mdl) beta)"

definition loglik_and_gradient_from ::
  "CoxModel \<Rightarrow> real list \<Rightarrow> bool \<Rightarrow> py_error + (real \<times> real list option)" where
  "loglik_and_gradient_from mdl log_hazard loglik_only =
     err_bind (compute_hazard_increase_from mdl log_hazard)
       (\<lambda>(log_hazard_increase, hazard_increase, sum_risk).
     err_bind (np_sub (take (n_event mdl) log_hazard_increase) (map ln sum_risk)) (\<lambda>terms.
     let loglik = sum_list terms in
     if loglik_only then Inr (loglik, None)
     else
       let hazard_matrix = HazardMatrix_init hazard_increase sum_risk
                             (risk_set_end_index mdl) (n_appearance_in_risk_set mdl);
           v = replicate (length (model_X mdl)) 0;
           v = replicate (min (n_event mdl) (length v)) 1 @ drop (n_event mdl) v
       in
       err_bind (sum_over_events hazard_matrix) (\<lambda>soe.
       err_bind (np_isub v soe) (\<lambda>v.
       Inr (loglik, Some (X_Tdot (model_X mdl) v))))))"

definition compute_loglik_and_gradient ::
  "CoxModel \<Rightarrow> real list \<Rightarrow> bool \<Rightarrow> py_error + (real \<times> real list option)" where
  "compute_loglik_and_gradient mdl beta loglik_only =
     loglik_and_gradient_from mdl (X_dot (model_X mdl) beta) loglik_only"

text \<open>
  A small accepted observation set: events at times 1 and 2, one individual censored at
  time 5.
\<close>

definition example_model :: CoxModel where
  "example_model = \<lparr> n_event = 2, event_time = [At 1, At 2, PosInf],
             censoring_time = [PosInf, PosInf, At 5],
             n_appearance_in_risk_set = [1, 2, 2], risk_set_end_index = [2, 2],
             model_X = [[1], [0], [2]] \<rparr>"

section \<open>Auxiliary facts\<close>

subsection \<open>Cumulative sums and index arithmetic\<close>

lemma length_cumsum_from [simp]: "length (cumsum_from a xs) = length xs"
  by (induction xs arbitrary: a) auto

lemma length_np_cumsum [simp]: "length (np_cumsum xs) = length xs"
  by (simp add: np_cumsum_def)

lemma cumsum_from_nth:
  "j < length xs \<Longrightarrow> cumsum_from a xs ! j = a + sum_list (take (Suc j) xs)"
proof (induction xs arbitrary: a j)
  case Nil
  then show ?case by simp
next
  case (Cons x xs)
  show ?case
  proof (cases j)
    case 0
    then show ?thesis by simp
  next
    case (Suc j')
    with Cons.prems have "j' < length xs" by simp
    from Cons.IH[OF this, of "a + x"] Suc show ?thesis by simp
  qed
qed

lemma np_cumsum_nth:
  "j < length xs \<Longrightarrow> np_cumsum xs ! j = sum_list (take (Suc j) xs)"
  by (simp add: np_cumsum_def cumsum_from_nth)

lemma sum_list_take_drop_nth:
  "a + j < length xs \<Longrightarrow> sum_list (take (Suc j) (drop a xs)) = (\<Sum>i = a..a + j. xs ! i)"
proof -
  assume h: "a + j < length xs"
  have "take (Suc j) (drop a xs) = map ((!) xs) [a..<a + Suc j]"
  proof (rule nth_equalityI)
    show "length (take (Suc j) (drop a xs)) = length (map ((!) xs) [a..<a + Suc j])"
      using h by simp
  next
    fix i assume "i < length (take (Suc j) (drop a xs))"
    then have "i < Suc j" by simp
    then show "take (Suc j) (drop a xs) ! i = map ((!) xs) [a..<a + Suc j] ! i"
      using h by (simp del: upt_Suc)
  qed
  then have "sum_list (take (Suc j) (drop a xs)) = sum_list (map ((!) xs) [a..<a + Suc j])"
    by simp
  also have "\<dots> = (\<Sum>i = a..<a + Suc j. xs ! i)"
    by (simp add: interv_sum_list_conv_sum_set_nat)
  also have "\<dots> = (\<Sum>i = a..a + j. xs ! i)"
    using atLeastLessThanSuc_atLeastAtMost by (metis add_Suc_right)
  finally show ?thesis .
qed

lemma sum_list_drop_take_nth:
  "k \<le> b \<Longrightarrow> b \<le> length xs \<Longrightarrow> sum_list (drop k (take b xs)) = (\<Sum>i = k..<b. xs ! i)"
proof -
  assume h: "k \<le> b" "b \<le> length xs"
  have "drop k (take b xs) = map ((!) xs) [k..<b]"
  proof (rule nth_equalityI)
    show "length (drop k (take b xs)) = length (map ((!) xs) [k..<b])"
      using h by simp
  next
    fix i assume "i < length (drop k (take b xs))"
    then have "i < b - k" using h by simp
    then show "drop k (take b xs) ! i = map ((!) xs) [k..<b] ! i"
      using h by simp
  qed
  then show ?thesis by (simp add: interv_sum_list_conv_sum_set_nat)
qed

lemma np_reverse_cumsum_nth:
  assumes "k < length xs"
  shows "np_reverse_cumsum xs ! k = sum_list (drop k xs)"
proof -
  let ?n = "length xs"
  have "np_reverse_cumsum xs ! k = np_cumsum (rev xs) ! (?n - Suc k)"
    using assms by (simp add: np_reverse_cumsum_def rev_nth)
  also have "\<dots> = sum_list (take (Suc (?n - Suc k)) (rev xs))"
    using assms by (intro np_cumsum_nth) simp
  also have "Suc (?n - Suc k) = ?n - k" using assms by simp
  also have "take (?n - k) (rev xs) = rev (drop k xs)"
    using assms by (simp add: take_rev)
  finally show ?thesis by (simp add: sum_list_rev)
qed

lemma length_np_reverse_cumsum [simp]: "length (np_reverse_cumsum xs) = length xs"
  by (simp add: np_reverse_cumsum_def)

lemma py_from_nonneg: "0 \<le> i \<Longrightarrow> py_from xs i = drop (nat i) xs"
  by (simp add: py_from_def)

lemma py_upto_nonneg: "0 \<le> j \<Longrightarrow> py_upto xs j = take (nat j) xs"
  by (simp add: py_upto_def)

lemma np_take_in_range:
  "\<forall>i \<in> set idx. 0 \<le> i \<and> i < int (length xs) \<Longrightarrow>
     np_take xs idx = Inr (map (\<lambda>i. xs ! nat i) idx)"
  by (auto simp: np_take_def Let_def list_all_iff)

lemma np_add_same_length:
  "length xs = length ys \<Longrightarrow> np_add xs ys = Inr (map2 (+) xs ys)"
  by (simp add: np_add_def)

lemma sum_over_risk_set_in_range:
  assumes bounds: "\<forall>k < length rsei. int (length rsei) - 1 \<le> rsei ! k \<and> rsei ! k \<le> int (length arr) - 1"
    and nonempty: "rsei \<noteq> []"
  shows "\<exists>ys. sum_over_risk_set arr rsei = Inr ys \<and> length ys = length rsei
           \<and> (\<forall>k < length rsei. ys ! k = (\<Sum>i = k..nat (rsei ! k). arr ! i))"
proof -
  let ?m = "length rsei" and ?n = "length arr"
  let ?cs = "np_cumsum (drop (?m - 1) arr)"
  let ?idx = "map (\<lambda>r. r - int ?m + 1) rsei"
  let ?right = "map (\<lambda>i. ?cs ! nat i) ?idx"
  let ?left = "np_reverse_cumsum (take (?m - 1) arr) @ [0]"
  from nonempty have m0: "0 < ?m" by simp
  with bounds have "int ?m - 1 \<le> int ?n - 1" by (metis order_trans)
  then have mn: "?m \<le> ?n" by simp
  have m1: "nat (int ?m - 1) = ?m - 1" by simp
  have pf: "py_from arr (int ?m - 1) = drop (?m - 1) arr"
    using m0 by (subst py_from_nonneg) (simp_all add: m1)
  have pu: "py_upto arr (int ?m - 1) = take (?m - 1) arr"
    using m0 by (subst py_upto_nonneg) (simp_all add: m1)
  have len_cs: "length ?cs = ?n - (?m - 1)" by simp
  have len_cs_int: "int (length ?cs) = int ?n - int ?m + 1"
  proof -
    from m0 mn have "?m - 1 \<le> ?n" "1 \<le> ?m" by (simp_all add: Suc_le_eq)
    then have "int (?n - (?m - 1)) = int ?n - (int ?m - 1)"
      by (simp add: of_nat_diff)
    then show ?thesis by (simp add: len_cs)
  qed
  have idx_ok: "\<forall>i \<in> set ?idx. 0 \<le> i \<and> i < int (length ?cs)"
  proof
    fix i assume "i \<in> set ?idx"
    then obtain k where k: "k < ?m" and i: "i = rsei ! k - int ?m + 1"
      by (auto simp: in_set_conv_nth)
    from bounds k have "int ?m - 1 \<le> rsei ! k" "rsei ! k \<le> int ?n - 1" by auto
    with i show "0 \<le> i \<and> i < int (length ?cs)" unfolding len_cs_int by linarith
  qed
  have take_eq: "np_take ?cs ?idx = Inr ?right"
    by (rule np_take_in_range[OF idx_ok])
  have len_eq: "length ?right = length ?left" using m0 mn by simp
  have res: "sum_over_risk_set arr rsei = Inr (map2 (+) ?right ?left)"
    unfolding sum_over_risk_set_def Let_def pf pu take_eq
    using np_add_same_length[OF len_eq] by simp
  have len: "length (map2 (+) ?right ?left) = ?m" using len_eq by simp
  have vals: "map2 (+) ?right ?left ! k = (\<Sum>i = k..nat (rsei ! k). arr ! i)" if k: "k < ?m" for k
  proof -
    from bounds k have lo: "int ?m - 1 \<le> rsei ! k" and hi: "rsei ! k \<le> int ?n - 1" by auto
    define r where "r = nat (rsei ! k)"
    from lo hi m0 have r: "?m - 1 \<le> r" "r < ?n" "rsei ! k = int r"
      unfolding r_def by linarith+
    define j where "j = r - (?m - 1)"
    have m1le: "Suc 0 \<le> ?m" using m0 by (simp add: Suc_le_eq)
    have "int j = int r - int (?m - 1)" using r(1) unfolding j_def by (simp add: of_nat_diff)
    also have "int (?m - 1) = int ?m - 1" using m1le by (simp add: of_nat_diff)
    finally have j: "nat (rsei ! k - int ?m + 1) = j" using r(3) by simp
    have jr: "(?m - 1) + j = r" using r unfolding j_def by simp
    have a: "?right ! k = (\<Sum>i = ?m - 1..r. arr ! i)"
    proof -
      have "?right ! k = ?cs ! j" using k j by simp
      also have "\<dots> = sum_list (take (Suc j) (drop (?m - 1) arr))"
        using jr r by (intro np_cumsum_nth) simp
      also have "\<dots> = (\<Sum>i = ?m - 1..(?m - 1) + j. arr ! i)"
        using jr r by (intro sum_list_take_drop_nth) simp
      finally show ?thesis using jr by simp
    qed
    have b: "?left ! k = (\<Sum>i = k..<?m - 1. arr ! i)"
    proof (cases "k < ?m - 1")
      case True
      then have "?left ! k = np_reverse_cumsum (take (?m - 1) arr) ! k"
        using mn by (simp add: nth_append)
      also have "\<dots> = sum_list (drop k (take (?m - 1) arr))"
        using True mn by (intro np_reverse_cumsum_nth) simp
      also have "\<dots> = (\<Sum>i = k..<?m - 1. arr ! i)"
        using True mn by (intro sum_list_drop_take_nth) simp_all
      finally show ?thesis .
    next
      case False
      with k have "k = ?m - 1" by simp
      then show ?thesis using mn by (simp add: nth_append)
    qed
    have split: "{k..r} = {k..<?m - 1} \<union> {?m - 1..r}" using k r by auto
    have "(\<Sum>i = k..r. arr ! i) = (\<Sum>i = k..<?m - 1. arr ! i) + (\<Sum>i = ?m - 1..r. arr ! i)"
      unfolding split by (rule sum.union_disjoint) auto
    moreover have "map2 (+) ?right ?left ! k = ?right ! k + ?left ! k"
      using k len_eq by simp
    ultimately show ?thesis using a b unfolding r_def by simp
  qed
  from res len vals show ?thesis by blast
qed

subsection \<open>Order of times, the constructor's checks and its derived state\<close>

lemma t_le_iff_not_less: "t_le a b \<longleftrightarrow> \<not> t_less b a"
  by (cases a; cases b) auto

lemma t_le_refl [simp]: "t_le a a"
  by (cases a) auto

lemma t_le_trans: "t_le a b \<Longrightarrow> t_le b c \<Longrightarrow> t_le a c"
  by (cases a; cases b; cases c) auto

lemma t_le_less_trans: "t_le a b \<Longrightarrow> t_less b c \<Longrightarrow> t_less a c"
  by (cases a; cases b; cases c) auto

lemma t_less_imp_le: "t_less a b \<Longrightarrow> t_le a b"
  by (cases a; cases b) auto

lemma t_less_PosInf_iff: "t_less t PosInf \<longleftrightarrow> t \<noteq> PosInf"
  by (cases t) auto

lemma transp_t_le: "transp t_le"
  by (auto simp: transp_def intro: t_le_trans)

lemma transp_t_ge: "transp (\<lambda>a b. t_le b a)"
  by (auto simp: transp_def intro: t_le_trans)

lemma list_ex_adjacent:
  "list_ex (\<lambda>(a, b). r a b) (zip (butlast xs) (tl xs))
     \<longleftrightarrow> (\<exists>i. Suc i < length xs \<and> r (xs ! i) (xs ! Suc i))"
proof -
  have "list_ex (\<lambda>(a, b). r a b) (zip (butlast xs) (tl xs))
        \<longleftrightarrow> (\<exists>i < length xs - 1. r (butlast xs ! i) (tl xs ! i))"
    by (simp add: list_ex_iff set_zip Bex_def) blast
  also have "\<dots> \<longleftrightarrow> (\<exists>i. Suc i < length xs \<and> r (xs ! i) (xs ! Suc i))"
  proof (intro iffI; elim exE conjE)
    fix i assume "i < length xs - 1" "r (butlast xs ! i) (tl xs ! i)"
    then have "Suc i < length xs \<and> r (xs ! i) (xs ! Suc i)"
      by (simp add: nth_butlast nth_tl less_diff_conv)
    then show "\<exists>i. Suc i < length xs \<and> r (xs ! i) (xs ! Suc i)" ..
  next
    fix i assume "Suc i < length xs" "r (xs ! i) (xs ! Suc i)"
    then have "i < length xs - 1 \<and> r (butlast xs ! i) (tl xs ! i)"
      by (simp add: nth_butlast nth_tl less_diff_conv)
    then show "\<exists>i < length xs - 1. r (butlast xs ! i) (tl xs ! i)" by blast
  qed
  finally show ?thesis .
qed

lemma event_check_iff_sorted:
  "\<not> list_ex (\<lambda>(a, b). t_less b a) (zip (butlast et) (tl et)) \<longleftrightarrow> sorted_wrt t_le et"
  unfolding list_ex_adjacent sorted_wrt_iff_nth_Suc_transp[OF transp_t_le]
  by (auto simp: t_le_iff_not_less)

lemma censoring_check_iff_sorted:
  "\<not> list_ex (\<lambda>(a, b). t_less a b) (zip (butlast ct) (tl ct))
     \<longleftrightarrow> sorted_wrt (\<lambda>a b. t_le b a) ct"
  unfolding list_ex_adjacent sorted_wrt_iff_nth_Suc_transp[OF transp_t_ge]
  by (auto simp: t_le_iff_not_less)

lemma fold_count_length:
  "length init = length ct \<Longrightarrow> length et = length ct \<Longrightarrow>
   length (fold (\<lambda>t n_appearance.
             map2 (\<lambda>(c, e) a. if t_le t c \<and> t_le t e then a + 1 else a) (zip ct et) n_appearance)
          ts init) = length ct"
  by (induction ts arbitrary: init) auto

lemma fold_count_nth:
  "length init = length ct \<Longrightarrow> length et = length ct \<Longrightarrow> i < length ct \<Longrightarrow>
   fold (\<lambda>t n_appearance.
             map2 (\<lambda>(c, e) a. if t_le t c \<and> t_le t e then a + (1::int) else a) (zip ct et) n_appearance)
          ts init ! i
   = init ! i + int (length (filter (\<lambda>t. t_le t (ct ! i) \<and> t_le t (et ! i)) ts))"
proof (induction ts arbitrary: init)
  case Nil
  then show ?case by simp
next
  case (Cons t ts)
  let ?step = "map2 (\<lambda>(c, e) a. if t_le t c \<and> t_le t e then a + (1::int) else a) (zip ct et) init"
  have len: "length ?step = length ct" using Cons.prems by simp
  have nth: "?step ! i = (if t_le t (ct ! i) \<and> t_le t (et ! i) then init ! i + 1 else init ! i)"
    using Cons.prems by simp
  from Cons.IH[OF len Cons.prems(2,3)] nth show ?case by simp
qed

lemma length_count_risk_set_appearance:
  "length et = length ct \<Longrightarrow> length (count_risk_set_appearance et ct) = length ct"
  unfolding count_risk_set_appearance_def by (rule fold_count_length) simp_all

lemma count_risk_set_appearance_nth:
  assumes "length et = length ct" "i < length ct"
  shows "count_risk_set_appearance et ct ! i
         = int (length (filter (\<lambda>t. t \<noteq> PosInf \<and> t_le t (ct ! i) \<and> t_le t (et ! i)) et))"
proof -
  have "count_risk_set_appearance et ct ! i
        = replicate (length ct) 0 ! i
          + int (length (filter (\<lambda>t. t_le t (ct ! i) \<and> t_le t (et ! i))
                                 (filter (\<lambda>t. t_less t PosInf) et)))"
    unfolding count_risk_set_appearance_def using assms by (intro fold_count_nth) simp_all
  also have "\<dots> = int (length (filter (\<lambda>t. t \<noteq> PosInf \<and> t_le t (ct ! i) \<and> t_le t (et ! i)) et))"
    using assms by (simp add: t_less_PosInf_iff conj_commute)
  finally show ?thesis .
qed

lemma CoxModel_init_InrD:
  assumes "CoxModel_init et ct X = Inr mdl"
  shows "sorted_wrt t_le et"
    and "sorted_wrt (\<lambda>a b. t_le b a) ct"
    and "list_all (\<lambda>a. 1 \<le> a) (count_risk_set_appearance et ct)"
    and "mdl = \<lparr> n_event = length et - length (filter (\<lambda>t. t = PosInf) et),
                event_time = et,
                censoring_time = ct,
                n_appearance_in_risk_set = count_risk_set_appearance et ct,
                risk_set_end_index =
                  map (\<lambda>t. int (length (filter (\<lambda>c. t_less t c) ct)) - 1)
                      (take (length et - length (filter (\<lambda>t. t = PosInf) et)) et),
                model_X = X \<rparr>"
proof -
  from assms have a: "\<not> list_ex (\<lambda>(a, b). t_less b a) (zip (butlast et) (tl et))"
    unfolding CoxModel_init_def by (auto split: if_splits)
  from assms have b: "\<not> list_ex (\<lambda>(a, b). t_less a b) (zip (butlast ct) (tl ct))"
    unfolding CoxModel_init_def by (auto split: if_splits)
  from assms a b show c: "list_all (\<lambda>a. 1 \<le> a) (count_risk_set_appearance et ct)"
    unfolding CoxModel_init_def Let_def by (simp split: if_splits)
  from a show "sorted_wrt t_le et" by (simp only: event_check_iff_sorted)
  from b show "sorted_wrt (\<lambda>a b. t_le b a) ct" by (simp only: censoring_check_iff_sorted)
  from assms a b c show "mdl = \<lparr> n_event = length et - length (filter (\<lambda>t. t = PosInf) et),
                event_time = et,
                censoring_time = ct,
                n_appearance_in_risk_set = count_risk_set_appearance et ct,
                risk_set_end_index =
                  map (\<lambda>t. int (length (filter (\<lambda>c. t_less t c) ct)) - 1)
                      (take (length et - length (filter (\<lambda>t. t = PosInf) et)) et),
                model_X = X \<rparr>"
    unfolding CoxModel_init_def Let_def by simp
qed

lemma length_filter_mono:
  "(\<And>x. x \<in> set xs \<Longrightarrow> P x \<Longrightarrow> Q x) \<Longrightarrow> length (filter P xs) \<le> length (filter Q xs)"
proof (induction xs)
  case Nil
  then show ?case by simp
next
  case (Cons x xs)
  then have "length (filter P xs) \<le> length (filter Q xs)" by simp
  with Cons.prems[of x] show ?case by auto
qed

lemma t_le_PosInf_left: "t_le PosInf x \<Longrightarrow> x = PosInf"
  by (cases x) auto

lemma sorted_finite_prefix:
  assumes srt: "sorted_wrt t_le et"
    and k: "k < length et - length (filter (\<lambda>t. t = PosInf) et)"
  shows "et ! k \<noteq> PosInf"
proof
  assume inf: "et ! k = PosInf"
  from k have kn: "k < length et" by simp
  have all: "\<forall>x \<in> set (drop k et). x = PosInf"
  proof
    fix x assume "x \<in> set (drop k et)"
    then obtain j where j: "j < length et - k" and x: "x = et ! (k + j)"
      by (auto simp: in_set_conv_nth)
    show "x = PosInf"
    proof (cases j)
      case 0
      with x inf show ?thesis by simp
    next
      case (Suc j')
      with j have "k < k + j" "k + j < length et" by simp_all
      with srt have "t_le (et ! k) (et ! (k + j))" by (simp add: sorted_wrt_iff_nth_less)
      with inf x show ?thesis by (simp add: t_le_PosInf_left)
    qed
  qed
  have "length (filter (\<lambda>t. t = PosInf) et)
        = length (filter (\<lambda>t. t = PosInf) (take k et)) + length (filter (\<lambda>t. t = PosInf) (drop k et))"
    by (metis append_take_drop_id filter_append length_append)
  also have "filter (\<lambda>t. t = PosInf) (drop k et) = drop k et"
    using all by (simp add: filter_id_conv)
  finally have "length et - k \<le> length (filter (\<lambda>t. t = PosInf) et)" by simp
  with k kn show False by simp
qed

lemma risk_set_end_index_props:
  assumes init: "CoxModel_init et ct X = Inr mdl"
    and len: "length et = length ct"
    and unc: "\<forall>i < length et. et ! i \<noteq> PosInf \<longrightarrow> ct ! i = PosInf"
  shows "length (risk_set_end_index mdl) = n_event mdl"
    and "n_event mdl \<le> length et"
    and "\<And>k. k < n_event mdl \<Longrightarrow> int (n_event mdl) - 1 \<le> risk_set_end_index mdl ! k"
    and "\<And>k. k < n_event mdl \<Longrightarrow> risk_set_end_index mdl ! k \<le> int (length et) - 1"
    and "\<And>j k. j \<le> k \<Longrightarrow> k < n_event mdl \<Longrightarrow> risk_set_end_index mdl ! k \<le> risk_set_end_index mdl ! j"
proof -
  define m where "m = length et - length (filter (\<lambda>t. t = PosInf) et)"
  note D = CoxModel_init_InrD[OF init]
  have nev: "n_event mdl = m" by (subst D(4)) (simp add: m_def)
  have rsei: "risk_set_end_index mdl
              = map (\<lambda>t. int (length (filter (\<lambda>c. t_less t c) ct)) - 1) (take m et)"
    by (subst D(4)) (simp add: m_def)
  have mle: "m \<le> length et" by (simp add: m_def)
  show "length (risk_set_end_index mdl) = n_event mdl" using mle by (simp add: rsei nev)
  show "n_event mdl \<le> length et" using mle by (simp add: nev)
  have nth: "risk_set_end_index mdl ! k = int (length (filter (\<lambda>c. t_less (et ! k) c) ct)) - 1"
    if "k < m" for k
    using that mle by (simp add: rsei)
  have fin: "et ! k \<noteq> PosInf" if "k < m" for k
    using sorted_finite_prefix[OF D(1)] that unfolding m_def by blast
  {
    fix k assume k: "k < n_event mdl"
    then have km: "k < m" by (simp add: nev)
    from fin[OF km] have tk: "t_less (et ! k) PosInf" by (simp add: t_less_PosInf_iff)
    have "\<forall>c \<in> set (take m ct). t_less (et ! k) c"
    proof
      fix c assume "c \<in> set (take m ct)"
      then obtain i where i: "i < m" and c: "c = ct ! i"
        using mle len by (auto simp: in_set_conv_nth)
      from fin[OF i] unc i mle have "ct ! i = PosInf" by simp
      with c tk show "t_less (et ! k) c" by simp
    qed
    then have "filter (\<lambda>c. t_less (et ! k) c) (take m ct) = take m ct"
      by (simp add: filter_id_conv)
    then have "length (filter (\<lambda>c. t_less (et ! k) c) (take m ct)) = m"
      using mle len by simp
    moreover have "length (filter (\<lambda>c. t_less (et ! k) c) ct)
          = length (filter (\<lambda>c. t_less (et ! k) c) (take m ct))
            + length (filter (\<lambda>c. t_less (et ! k) c) (drop m ct))"
      by (metis append_take_drop_id filter_append length_append)
    ultimately have "m \<le> length (filter (\<lambda>c. t_less (et ! k) c) ct)" by simp
    then show "int (n_event mdl) - 1 \<le> risk_set_end_index mdl ! k"
      by (simp add: nth[OF km] nev)
    have "length (filter (\<lambda>c. t_less (et ! k) c) ct) \<le> length ct" by simp
    then have "int (length (filter (\<lambda>c. t_less (et ! k) c) ct)) \<le> int (length ct)"
      by (simp only: of_nat_le_iff)
    then show "risk_set_end_index mdl ! k \<le> int (length et) - 1"
      unfolding nth[OF km] len by linarith
  }
  {
    fix j k assume jk: "j \<le> k" and k: "k < n_event mdl"
    then have km: "k < m" and jm: "j < m" by (simp_all add: nev)
    have "t_le (et ! j) (et ! k)"
    proof (cases "j = k")
      case True
      then show ?thesis by simp
    next
      case False
      with jk km mle have "j < k" "k < length et" by simp_all
      with D(1) show ?thesis by (simp add: sorted_wrt_iff_nth_less)
    qed
    then have "length (filter (\<lambda>c. t_less (et ! k) c) ct) \<le> length (filter (\<lambda>c. t_less (et ! j) c) ct)"
      by (intro length_filter_mono) (rule t_le_less_trans)
    then show "risk_set_end_index mdl ! k \<le> risk_set_end_index mdl ! j"
      by (simp add: nth[OF km] nth[OF jm])
  }
qed

subsection \<open>The sampler: constants, loops and one concrete run\<close>

lemma err_bind_Inl [simp]: "err_bind (Inl e) f = Inl e"
  by (simp add: err_bind_def)

lemma err_bind_Inr [simp]: "err_bind (Inr v) f = f v"
  by (simp add: err_bind_def)

lemma math_sqrt_nonneg: "0 \<le> x \<Longrightarrow> math_sqrt x = Inr (sqrt x)"
  by (simp add: math_sqrt_def)




lemma py_pow_small:
  "py_pow 1 y = Inr (PyFloat 1)"
  by (simp add: py_pow_def float_overflow_bound_def)









lemma powi_neg_base_odd: "(x::real) < 0 \<Longrightarrow> odd n \<Longrightarrow> x powi n < 0"
  by (cases "0 \<le> n") (auto simp: power_int_def power_less_zero_eq even_nat_iff)




lemma inner_loop_skip: "aug_accepted s \<Longrightarrow> inner_loop k src s = Some (Inr s)"
  by (subst inner_loop.simps) simp

lemma inner_loop_step:
  "\<not> aug_accepted s \<Longrightarrow> inner_pass k src s = Inr s' \<Longrightarrow> inner_loop k src s = inner_loop k src s'"
  by (subst inner_loop.simps) simp

lemma outer_pass_skip: "aug_accepted s \<Longrightarrow> outer_pass k src s = Some (outer_rest k src s)"
  by (simp add: outer_pass_def inner_loop_skip)

lemma err_bind_eq_Inr: "err_bind r f = Inr v \<longleftrightarrow> (\<exists>u. r = Inr u \<and> f u = Inr v)"
  by (cases r) simp_all

lemma draw_X_pos: "draw_X src p m delta a1 a3 s = Inr (X, N, E1, p') \<Longrightarrow> p' = p + 2"
  by (auto simp: draw_X_def Let_def err_bind_eq_Inr split: if_splits)

lemma outer_rest_keeps_aux:
  assumes "outer_rest k src s = Inr s'"
  shows "aug_accepted s' = aug_accepted s \<and> var_U s' = var_U s \<and> var_z s' = var_z s
         \<and> var_Z s' = var_Z s \<and> pos s' = pos s + 2"
  using assms unfolding outer_rest_def Let_def
  by (auto simp: err_bind_eq_Inr split: prod.splits dest!: draw_X_pos)

lemma inner_loop_returns_accepted:
  "inner_loop k src s = Some (Inr s') \<Longrightarrow> aug_accepted s'"
proof (induction k src s "Inr s' :: py_error + rv_state" rule: inner_loop.raw_induct[rotated 1, consumes 1])
  case (1 inner_loop k src s)
  then show ?case by (auto split: if_splits sum.splits)
qed

lemma src_vals:
  "rejected_once_src 0 = 0" "rejected_once_src 1 = 0" "rejected_once_src 2 = 1 / 2"
  "rejected_once_src 3 = 0" "rejected_once_src 4 = 2" "rejected_once_src 5 = 0"
  "rejected_once_src 6 = 0"
  "rejected_once_src (Suc 0) = 0" "rejected_once_src (Suc (Suc 0)) = 1 / 2"
  by (simp_all add: rejected_once_src_def)

lemma half_powr_half_sq: "(1 / 2 :: real) powr (1 / 2) * (1 / 2) powr (1 / 2) = 1 / 2"
proof -
  have "(1 / 2 :: real) powr (1 / 2) * (1 / 2) powr (1 / 2) = (1 / 2) powr (1 / 2 + 1 / 2)"
    by (simp only: powr_add)
  then show ?thesis by simp
qed

lemma two_powr_minus_two: "(2 :: real) powr (- 2) = 1 / 4"
  by (simp add: powr_minus)

lemma four_powr_half: "(4 :: real) powr (1 / 2) = 2"
  by (simp add: powr_half_sqrt)

lemma sqrt_quarter: "sqrt (1 / 4) = 1 / 2"
  by (simp add: real_sqrt_divide)

lemma BdB0_at_zero: "BdB0 0 (1 / 2) = Inr 1"
  by (simp add: BdB0_def math_pow_def py_div_def sinc_def)

lemma A_3_at_zero: "A_3 0 (1 / 2) = Inr (1 / 2)"
  by (simp add: A_3_def math_pow_def py_div_def sinc_def half_powr_half_sq)

lemma rv_constants_half_one:
  "\<exists>K. rv_constants (1 / 2) 1 = Inr K
       \<and> k_alpha K = 1 / 2 \<and> k_b K = 1 \<and> k_lam_alpha K = 1 \<and> k_gamma K = 1 / 4
       \<and> k_sqrt_gamma K = 1 / 2 \<and> k_c1 K = sqrt (pi / 2)
       \<and> k_xi K = (1 + sqrt 2 * ((2 + sqrt (pi / 2)) * (1 / 2))) / pi
       \<and> 0 < k_psi K \<and> 0 < k_w2 K \<and> k_w3 K = k_xi K * pi"
proof -
  have g: "(1::real) * (1 / 2) * (1 - 1 / 2) = 1 / 4" by simp
  show ?thesis
    unfolding rv_constants_def
    apply (simp only: py_div_def py_pow_small math_sqrt_def Let_def err_bind_Inr g sqrt_quarter
        pynum.case)
    apply (simp add: sqrt_quarter)
    apply (intro conjI divide_pos_pos mult_pos_pos add_pos_nonneg)
    apply simp_all
    done
qed

lemma inner_pass_half_one:
  assumes K: "k_alpha K = 1 / 2" "k_lam_alpha K = 1" "k_gamma K = 1 / 4"
      "k_sqrt_gamma K = 1 / 2" "k_c1 K = sqrt (pi / 2)"
      "k_xi K = (1 + sqrt 2 * ((2 + sqrt (pi / 2)) * (1 / 2))) / pi"
      "0 < k_w2 K" "k_w3 K = k_xi K * pi"
  shows "\<exists>Z0. 0 < Z0 \<and> Z0 \<le> 1 \<and>
           inner_pass K rejected_once_src rv_initial
             = Inr (rv_initial\<lparr> pos := 3, var_U := Some 0, var_z := Some (4 / 3),
                                 var_Z := Some Z0, aug_accepted := True \<rparr>)"
proof -
  define c1 where "c1 = sqrt (pi / 2)"
  have c1: "0 \<le> c1" by (simp add: c1_def)
  define t where "t = sqrt 2 * ((2 + c1) * (1 / 2))"
  have xi_pi: "k_xi K * pi = 1 + t"
    by (simp add: K(6) c1_def t_def)
  have xi_pos: "0 < k_xi K"
    unfolding K(6) using c1 unfolding c1_def
    by (intro divide_pos_pos add_pos_nonneg mult_nonneg_nonneg) simp_all
  have w3: "0 < k_w3 K" unfolding K(8) using xi_pos by simp
  have thr: "0 < k_w3 K / (k_w2 K + k_w3 K)" using w3 K(7) by simp
  have ne: "k_w2 K + k_w3 K \<noteq> 0" using w3 K(7) by simp
  have dU: "draw_U K rejected_once_src 0 = Inr (0, 2)"
    using thr ne by (simp add: draw_U_def Let_def K(3) src_vals py_div_def)
  define den where "den = (1 + c1) * (1 / 2) + 4 / 3"
  have den: "0 < den" unfolding den_def using c1 by (intro add_nonneg_pos mult_nonneg_nonneg) simp_all
  define Z0 where
    "Z0 = 1 / 2 * (pi * exp (- 1 * (1 - 1)) / ((1 + sqrt (pi / 2)) * (1 / 2) / 1 + 4 / 3) * (0 + k_xi K))"
  have Z0_eq: "Z0 = (1 / 2) * (k_xi K * pi) / den" by (simp add: Z0_def den_def c1_def)
  have Zpos: "0 < Z0" unfolding Z0_eq using den xi_pos by simp
  have s2: "sqrt 2 \<le> 2"
  proof -
    have "sqrt 2 \<le> sqrt 4" by (simp only: real_sqrt_le_iff)
    then show ?thesis by simp
  qed
  have "t \<le> 2 * ((2 + c1) * (1 / 2))"
    unfolding t_def using s2 c1 by (intro mult_right_mono) simp_all
  then have t_le: "t \<le> 2 + c1" by simp
  have e1: "1 / 2 * (1 + t) = 1 / 2 + t / 2" by (simp add: algebra_simps)
  have e2: "(1 + c1) * (1 / 2) = 1 / 2 + c1 / 2" by (simp add: algebra_simps)
  have "(1 / 2) * (k_xi K * pi) \<le> den" unfolding xi_pi den_def e1 e2 using t_le by linarith
  then have Zle: "Z0 \<le> 1" unfolding Z0_eq using den by (simp add: field_simps)
  have ne2: "(1 + sqrt (pi / 2)) / 2 + 4 / 3 \<noteq> 0"
    using den unfolding den_def c1_def by simp
  have ip: "inner_pass K rejected_once_src rv_initial
             = Inr (rv_initial\<lparr> pos := 3, var_U := Some 0, var_z := Some (4 / 3),
                                 var_Z := Some Z0, aug_accepted := (0 < pi \<and> Z0 \<le> 1) \<rparr>)"
    unfolding inner_pass_def Z0_def
    by (simp add: rv_initial_def dU Let_def K(1-5) src_vals BdB0_at_zero math_sqrt_def
        py_div_def math_pow_def two_powr_minus_two ne2)
  with Zpos Zle show ?thesis by auto
qed

lemma draw_X_first_branch:
  "0 < a1 \<Longrightarrow> 0 < s \<Longrightarrow> src p = 0 \<Longrightarrow>
     draw_X src p m delta a1 a3 s = Inr (m - delta * \<bar>src (p + 1)\<bar>, src (p + 1), 0, p + 2)"
  by (simp add: draw_X_def Let_def py_div_def)

lemma half_powr_two: "(1 / 2 :: real) powr 2 = 1 / 4"
  by (simp add: power2_eq_square)

lemma outer_rest_rejects:
  assumes K: "k_alpha K = 1 / 2" "k_b K = 1" "k_lam_alpha K = 1" "0 < k_c1 K"
    and s: "var_U s = Some 0" "var_z s = Some (4 / 3)"
    and V2: "src (pos s) = 0" and N: "src (Suc (pos s)) = 2"
  shows "outer_rest K src s
         = Inr (s\<lparr> pos := pos s + 2, var_X := Some (- 2), var_c := var_c s,
                   var_E2 := var_E2 s, accepted := False \<rparr>)"
  unfolding outer_rest_def
  apply (simp only: s read_var_def option.case err_bind_Inr K(1-3) A_3_at_zero)
  using K(4)
  apply (simp add: py_div_def math_pow_def math_sqrt_def math_log_def half_powr_two
      four_powr_half Let_def draw_X_first_branch V2 N)
  done

lemma outer_rest_accepts:
  assumes K: "k_alpha K = 1 / 2" "k_b K = 1" "k_lam_alpha K = 1" "0 < k_c1 K"
    and s: "var_U s = Some 0" "var_z s = Some (4 / 3)" "var_Z s = Some Z0"
    and Z0: "0 < Z0" "Z0 \<le> 1"
    and V2: "src (pos s) = 0" and N: "src (Suc (pos s)) = 0"
  shows "outer_rest K src s
         = Inr (s\<lparr> pos := pos s + 2, var_X := Some 2, var_c := Some 0,
                   var_E2 := Some (- ln Z0), accepted := True \<rparr>)"
  unfolding outer_rest_def
  apply (simp only: s read_var_def option.case err_bind_Inr K(1-3) A_3_at_zero)
  using K(4) Z0
  apply (simp add: py_div_def math_pow_def math_sqrt_def math_log_def half_powr_two
      four_powr_half Let_def draw_X_first_branch V2 N)
  done

lemma outer_pass_leaves_aug_accepted:
  assumes "outer_pass k src s = Some (Inr s1)"
  shows "aug_accepted s1"
proof -
  from assms obtain s' where il: "inner_loop k src s = Some (Inr s')"
    and r: "outer_rest k src s' = Inr s1"
    by (auto simp: outer_pass_def split: option.splits sum.splits)
  from inner_loop_returns_accepted[OF il] outer_rest_keeps_aux[OF r] show ?thesis by simp
qed

lemma later_pass_reuses_aux:
  assumes "outer_pass k src s = Some (Inr s1)"
  shows "outer_pass k src s1 = Some (outer_rest k src s1)
         \<and> (\<forall>s2. outer_rest k src s1 = Inr s2 \<longrightarrow>
               var_U s2 = var_U s1 \<and> var_z s2 = var_z s1 \<and> var_Z s2 = var_Z s1
               \<and> pos s2 = pos s1 + 2)"
  using outer_pass_skip[OF outer_pass_leaves_aug_accepted[OF assms]] outer_rest_keeps_aux
  by blast

subsection \<open>Permutations, argsort and ranks\<close>

lemma perm_length: "distinct p \<Longrightarrow> set p = {0..<n} \<Longrightarrow> length p = n"
  by (metis card_atLeastLessThan diff_zero distinct_card)

lemma sorted_perm_upt:
  assumes "distinct xs" "set xs = {0..<n}" "sorted xs"
  shows "xs = [0..<n]"
  by (rule sorted_distinct_set_unique) (use assms in simp_all)

lemma perm_nth_inj:
  assumes "distinct p" "i < length p" "j < length p" "p ! i = p ! j"
  shows "i = j"
  using assms by (simp add: nth_eq_iff_index_eq)

lemma perm_compose:
  assumes p: "distinct p" "set p = {0..<n}" and q: "distinct q" "set q = {0..<n}"
  shows "distinct (map ((!) p) q)" and "set (map ((!) p) q) = {0..<n}"
proof -
  have lp: "length p = n" by (rule perm_length[OF p])
  have inj: "inj_on ((!) p) {0..<n}"
    using p(1) lp by (auto simp: inj_on_def nth_eq_iff_index_eq)
  show "distinct (map ((!) p) q)" using q inj by (simp add: distinct_map)
  have "set (map ((!) p) q) = (!) p ` {0..<n}" using q by simp
  also have "\<dots> = set p" using lp by (auto simp: set_conv_nth)
  finally show "set (map ((!) p) q) = {0..<n}" using p by simp
qed

lemma np_take_nat:
  "\<forall>i \<in> set idx. i < length xs \<Longrightarrow> np_take xs (map int idx) = Inr (map ((!) xs) idx)"
  by (subst np_take_in_range) (auto simp: comp_def)

lemma argsort_of_perm:
  assumes f: "is_argsort (\<le>) (f :: nat list \<Rightarrow> nat list)"
    and p: "distinct p" "set p = {0..<n}"
  shows "distinct (f p)" "set (f p) = {0..<n}" "length (f p) = n"
    and "\<And>j. j < n \<Longrightarrow> p ! (f p ! j) = j"
proof -
  have lp: "length p = n" by (rule perm_length[OF p])
  from f have d: "distinct (f p)" and s: "set (f p) = {0..<length p}"
    and srt: "sorted_wrt (\<le>) (map ((!) p) (f p))"
    unfolding is_argsort_def by blast+
  show "distinct (f p)" by (rule d)
  show s': "set (f p) = {0..<n}" using s lp by simp
  show l: "length (f p) = n" by (rule perm_length[OF d s'])
  from perm_compose[OF p d s'] srt have eq: "map ((!) p) (f p) = [0..<n]"
    by (intro sorted_perm_upt) simp_all
  show "p ! (f p ! j) = j" if "j < n" for j
  proof -
    have "p ! (f p ! j) = map ((!) p) (f p) ! j" using that l by simp
    also have "\<dots> = [0..<n] ! j" by (simp only: eq)
    also have "\<dots> = j" using that by simp
    finally show ?thesis .
  qed
qed

lemma is_argsortD:
  assumes "is_argsort le f"
  shows "distinct (f xs)" "set (f xs) = {0..<length xs}" "length (f xs) = length xs"
    "sorted_wrt le (map ((!) xs) (f xs))"
proof -
  from assms have all: "distinct (f xs) \<and> set (f xs) = {0..<length xs}
           \<and> sorted_wrt le (map ((!) xs) (f xs))"
    unfolding is_argsort_def by (rule spec)
  from all show d: "distinct (f xs)" by (rule conjunct1)
  from all show s: "set (f xs) = {0..<length xs}" by (elim conjE)
  from all show "sorted_wrt le (map ((!) xs) (f xs))" by (elim conjE)
  show "length (f xs) = length xs" by (rule perm_length[OF d s])
qed

lemma length_filter_perm:
  assumes "distinct p" "set p = {0..<length xs}"
  shows "length (filter P (map ((!) xs) p)) = length (filter P xs)"
proof -
  have "length (filter P (map ((!) xs) p)) = length (filter (\<lambda>i. P (xs ! i)) p)"
    by (simp add: filter_map comp_def)
  also have "\<dots> = card ({i. P (xs ! i)} \<inter> set p)"
    by (rule distinct_length_filter[OF assms(1)])
  also have "{i. P (xs ! i)} \<inter> set p = {i. i < length xs \<and> P (xs ! i)}"
    unfolding assms(2) by (rule set_eqI) (simp add: conj_commute)
  also have "card \<dots> = length (filter P xs)"
    by (simp only: length_filter_conv_card)
  finally show ?thesis .
qed

lemma rank_inverse:
  fixes S :: argsorts and arr :: "pytime list"
  assumes ft: "is_argsort t_le (on_times S)" and fi: "is_argsort (\<le>) (on_indices S)"
  defines "sigma \<equiv> on_times S arr" and "r \<equiv> on_indices S (on_times S arr)"
  shows "np_rank_by_value S arr = Inr (map real r)"
    and "distinct r" "set r = {0..<length arr}" "length r = length arr"
    and "\<And>j. j < length arr \<Longrightarrow> sigma ! (r ! j) = j"
proof -
  note sg = is_argsortD[OF ft, of arr]
  have p: "distinct sigma" "set sigma = {0..<length arr}"
    using sg by (simp_all add: sigma_def)
  note inv = argsort_of_perm[OF fi p]
  show "distinct r" using inv(1) by (simp add: r_def sigma_def)
  show sr: "set r = {0..<length arr}" using inv(2) by (simp add: r_def sigma_def)
  show "length r = length arr" using inv(3) by (simp add: r_def sigma_def)
  show "sigma ! (r ! j) = j" if "j < length arr" for j
    using inv(4)[OF that] by (simp add: r_def sigma_def)
  have "np_take [0..<length arr] (map int r) = Inr (map ((!) [0..<length arr]) r)"
    by (rule np_take_nat) (use sr in auto)
  also have "map ((!) [0..<length arr]) r = r"
    using sr by (intro map_idI) auto
  finally show "np_rank_by_value S arr = Inr (map real r)"
    by (simp add: np_rank_by_value_def Let_def r_def)
qed

lemma argsort_of_rank:
  fixes S :: argsorts and arr :: "pytime list"
  assumes ft: "is_argsort t_le (on_times S)" and fi: "is_argsort (\<le>) (on_indices S)"
    and ff: "is_argsort (\<le>) (on_floats S)"
  defines "sigma \<equiv> on_times S arr" and "r \<equiv> on_indices S (on_times S arr)"
  shows "on_floats S (map real r) = sigma"
proof -
  let ?n = "length arr"
  let ?tau = "on_floats S (map real r)"
  note R = rank_inverse[OF ft fi, where arr = arr, folded r_def sigma_def]
  note T = is_argsortD[OF ff, of "map real r"]
  have lt: "length ?tau = ?n" using T(3) R(4) by simp
  have st: "set ?tau = {0..<?n}" using T(2) R(4) by simp
  have me: "map ((!) (map real r)) ?tau = map real (map ((!) r) ?tau)"
  proof (rule nth_equalityI)
    show "length (map ((!) (map real r)) ?tau) = length (map real (map ((!) r) ?tau))" by simp
  next
    fix i assume "i < length (map ((!) (map real r)) ?tau)"
    then have i: "i < length ?tau" by simp
    then have "?tau ! i \<in> set ?tau" by (rule nth_mem)
    then have "?tau ! i < length r" using st R(4) by simp
    then show "map ((!) (map real r)) ?tau ! i = map real (map ((!) r) ?tau) ! i"
      using i by simp
  qed
  from T(4) have "sorted (map real (map ((!) r) ?tau))" unfolding me .
  then have srt: "sorted (map ((!) r) ?tau)"
    by (simp add: sorted_wrt_map)
  from perm_compose[OF R(2,3) T(1) st] srt have eq: "map ((!) r) ?tau = [0..<?n]"
    by (intro sorted_perm_upt) simp_all
  have ls: "length sigma = ?n" using is_argsortD(3)[OF ft, of arr] by (simp add: sigma_def)
  show ?thesis
  proof (rule nth_equalityI)
    show "length ?tau = length sigma" using lt ls by simp
  next
    fix j assume "j < length ?tau"
    then have j: "j < ?n" using lt by simp
    have "?tau ! j \<in> set ?tau" using j lt by (intro nth_mem) simp
    then have tj: "?tau ! j < ?n" using st by simp
    have "r ! (?tau ! j) = map ((!) r) ?tau ! j" using j lt by simp
    also have "\<dots> = j" using j by (simp add: eq)
    finally have "r ! (?tau ! j) = j" .
    with R(5)[OF tj] show "?tau ! j = sigma ! j" by simp
  qed
qed

lemma argsort_of_negated_rank:
  fixes S :: argsorts and arr :: "pytime list"
  assumes ft: "is_argsort t_le (on_times S)" and fi: "is_argsort (\<le>) (on_indices S)"
    and ff: "is_argsort (\<le>) (on_floats S)"
  defines "sigma \<equiv> on_times S arr" and "r \<equiv> on_indices S (on_times S arr)"
  shows "on_floats S (map uminus (map real r)) = rev sigma"
proof -
  let ?n = "length arr"
  let ?tau = "on_floats S (map uminus (map real r))"
  note R = rank_inverse[OF ft fi, where arr = arr, folded r_def sigma_def]
  note T = is_argsortD[OF ff, of "map uminus (map real r)"]
  have lt: "length ?tau = ?n" using T(3) R(4) by simp
  have st: "set ?tau = {0..<?n}" using T(2) R(4) by simp
  have me: "map ((!) (map uminus (map real r))) ?tau = map (\<lambda>k. - real k) (map ((!) r) ?tau)"
  proof (rule nth_equalityI)
    show "length (map ((!) (map uminus (map real r))) ?tau)
          = length (map (\<lambda>k. - real k) (map ((!) r) ?tau))" by simp
  next
    fix i assume "i < length (map ((!) (map uminus (map real r))) ?tau)"
    then have i: "i < length ?tau" by simp
    then have "?tau ! i \<in> set ?tau" by (rule nth_mem)
    then have "?tau ! i < length r" using st R(4) by simp
    then show "map ((!) (map uminus (map real r))) ?tau ! i
               = map (\<lambda>k. - real k) (map ((!) r) ?tau) ! i"
      using i by simp
  qed
  from T(4) have "sorted_wrt (\<le>) (map (\<lambda>k. - real k) (map ((!) r) ?tau))"
    unfolding me .
  then have "sorted_wrt (\<lambda>a b. b \<le> a) (map ((!) r) ?tau)"
    by (simp add: sorted_wrt_map)
  then have srt: "sorted (rev (map ((!) r) ?tau))"
    by (simp add: sorted_wrt_rev)
  from perm_compose[OF R(2,3) T(1) st] srt have "rev (map ((!) r) ?tau) = [0..<?n]"
    by (intro sorted_perm_upt) simp_all
  then have eq: "map ((!) r) ?tau = rev [0..<?n]" by (metis rev_rev_ident)
  have ls: "length sigma = ?n" using is_argsortD(3)[OF ft, of arr] by (simp add: sigma_def)
  show ?thesis
  proof (rule nth_equalityI)
    show "length ?tau = length (rev sigma)" using lt ls by simp
  next
    fix j assume "j < length ?tau"
    then have j: "j < ?n" using lt by simp
    have "?tau ! j \<in> set ?tau" using j lt by (intro nth_mem) simp
    then have tj: "?tau ! j < ?n" using st by simp
    have "r ! (?tau ! j) = map ((!) r) ?tau ! j" using j lt by simp
    also have "\<dots> = rev [0..<?n] ! j" by (simp only: eq)
    also have "\<dots> = ?n - Suc j" using j by (simp add: rev_nth)
    finally have "r ! (?tau ! j) = ?n - Suc j" .
    with R(5)[OF tj] have "?tau ! j = sigma ! (?n - Suc j)" by simp
    also have "\<dots> = rev sigma ! j" using j ls by (simp add: rev_nth)
    finally show "?tau ! j = rev sigma ! j" .
  qed
qed

lemma sorted_wrt_all_related:
  "(\<And>x y. x \<in> set xs \<Longrightarrow> y \<in> set xs \<Longrightarrow> R x y) \<Longrightarrow> sorted_wrt R xs"
  by (induction xs) auto

lemma finite_count_compl:
  "length (filter (\<lambda>t. t = PosInf) xs) = length xs - length (filter (\<lambda>e. t_less e PosInf) xs)"
proof -
  have "length (filter (\<lambda>e. t_less e PosInf) xs) + length (filter (\<lambda>e. \<not> t_less e PosInf) xs)
        = length xs"
    by (rule sum_length_filter_compl)
  moreover have "filter (\<lambda>e. \<not> t_less e PosInf) xs = filter (\<lambda>t. t = PosInf) xs"
    by (simp add: t_less_PosInf_iff)
  ultimately show ?thesis by simp
qed

lemma consistent_counts:
  assumes len: "length ct = length et"
    and cons: "\<forall>i < length et. (et ! i = PosInf) = (ct ! i \<noteq> PosInf)"
  shows "length (filter (\<lambda>t. t = PosInf) ct) = length (filter (\<lambda>e. t_less e PosInf) et)"
proof -
  have "{i. i < length ct \<and> ct ! i = PosInf} = {i. i < length et \<and> t_less (et ! i) PosInf}"
    using len cons by (auto simp: t_less_PosInf_iff)
  then show ?thesis by (simp only: length_filter_conv_card)
qed

lemma sorted_prefix_finite:
  assumes ft: "is_argsort t_le f"
    and j: "j < length (filter (\<lambda>e. t_less e PosInf) xs)"
  shows "xs ! (f xs ! j) \<noteq> PosInf" and "j < length xs"
proof -
  note A = is_argsortD[OF ft, of xs]
  let ?L = "map ((!) xs) (f xs)"
  have cnt: "length (filter (\<lambda>t. t = PosInf) ?L) = length (filter (\<lambda>t. t = PosInf) xs)"
    by (rule length_filter_perm[OF A(1,2)])
  have le: "length (filter (\<lambda>e. t_less e PosInf) xs) \<le> length xs" by simp
  with j show jn: "j < length xs" by (rule less_le_trans)
  have lL: "length ?L = length xs" using A(3) by simp
  have c2: "length (filter (\<lambda>t. t = PosInf) ?L)
            = length xs - length (filter (\<lambda>e. t_less e PosInf) xs)"
    by (simp only: cnt finite_count_compl[of xs])
  have "j < length ?L - length (filter (\<lambda>t. t = PosInf) ?L)"
    unfolding c2 lL using j le by linarith
  from sorted_finite_prefix[OF A(4) this] show "xs ! (f xs ! j) \<noteq> PosInf"
    using jn A(3) by simp
qed

lemma permute_observations_result:
  fixes S :: argsorts
  assumes ft: "is_argsort t_le (on_times S)" and fi: "is_argsort (\<le>) (on_indices S)"
    and ff: "is_argsort (\<le>) (on_floats S)"
    and lenc: "length ct = length et" and lenX: "length X = length et"
    and cons: "\<forall>i < length et. (et ! i = PosInf) = (ct ! i \<noteq> PosInf)"
  defines "m \<equiv> length (filter (\<lambda>e. t_less e PosInf) et)"
  defines "sort_ind \<equiv> take m (on_times S et) @ rev (take (length et - m) (on_times S ct))"
  shows "permute_observations_by_event_and_censoring_time S et ct X
           = Inr (map ((!) et) sort_ind, map ((!) ct) sort_ind, map ((!) X) sort_ind)"
    and "distinct sort_ind" and "set sort_ind \<subseteq> {0..<length et}"
    and "\<forall>x \<in> set (take m (on_times S et)). et ! x \<noteq> PosInf \<and> ct ! x = PosInf"
    and "\<forall>x \<in> set (take (length et - m) (on_times S ct)). ct ! x \<noteq> PosInf \<and> et ! x = PosInf"
proof -
  let ?n = "length et"
  let ?sg = "on_times S et" and ?sc = "on_times S ct"
  note E = is_argsortD[OF ft, of et] and C = is_argsortD[OF ft, of ct]
  have mle: "m \<le> ?n" by (simp add: m_def)
  have finc: "length (filter (\<lambda>e. t_less e PosInf) ct) = ?n - m"
  proof -
    have "length (filter (\<lambda>t. t = PosInf) ct) = m"
      unfolding m_def by (rule consistent_counts[OF lenc cons])
    moreover have "length (filter (\<lambda>t. t = PosInf) ct)
                   = length ct - length (filter (\<lambda>e. t_less e PosInf) ct)"
      by (rule finite_count_compl)
    moreover have "length (filter (\<lambda>e. t_less e PosInf) ct) \<le> length ct" by simp
    ultimately show ?thesis using lenc by linarith
  qed
  show ev: "\<forall>x \<in> set (take m ?sg). et ! x \<noteq> PosInf \<and> ct ! x = PosInf"
  proof
    fix x assume "x \<in> set (take m ?sg)"
    then obtain j where j: "j < m" and x: "x = ?sg ! j"
      using mle E(3) by (auto simp: in_set_conv_nth)
    from j have j': "j < length (filter (\<lambda>e. t_less e PosInf) et)" by (simp add: m_def)
    from sorted_prefix_finite[OF ft j'] have fin: "et ! (?sg ! j) \<noteq> PosInf" and jn: "j < ?n" .
    have "?sg ! j \<in> set ?sg" using jn E(3) by (intro nth_mem) simp
    then have "?sg ! j < ?n" using E(2) by simp
    with cons fin have "ct ! (?sg ! j) = PosInf" by blast
    with fin x show "et ! x \<noteq> PosInf \<and> ct ! x = PosInf" by simp
  qed
  show ce: "\<forall>x \<in> set (take (?n - m) ?sc). ct ! x \<noteq> PosInf \<and> et ! x = PosInf"
  proof
    fix x assume "x \<in> set (take (?n - m) ?sc)"
    then obtain j where j: "j < ?n - m" and x: "x = ?sc ! j"
      using C(3) lenc by (auto simp: in_set_conv_nth)
    from j have j': "j < length (filter (\<lambda>e. t_less e PosInf) ct)" by (simp add: finc)
    from sorted_prefix_finite[OF ft j'] have fin: "ct ! (?sc ! j) \<noteq> PosInf" and jn: "j < length ct" .
    have "?sc ! j \<in> set ?sc" using jn C(3) by (intro nth_mem) simp
    then have "?sc ! j < ?n" using C(2) lenc by simp
    with cons fin have "et ! (?sc ! j) = PosInf" by blast
    with fin x show "ct ! x \<noteq> PosInf \<and> et ! x = PosInf" by simp
  qed
  show dist: "distinct sort_ind"
  proof -
    have "distinct (take m ?sg)" using E(1) by (rule distinct_take)
    moreover have "distinct (rev (take (?n - m) ?sc))" using C(1) by (simp add: distinct_take)
    moreover have "set (take m ?sg) \<inter> set (rev (take (?n - m) ?sc)) = {}"
      using ev ce by auto
    ultimately show ?thesis unfolding sort_ind_def by simp
  qed
  show rng: "set sort_ind \<subseteq> {0..<?n}"
  proof -
    have "set (take m ?sg) \<subseteq> set ?sg" by (rule set_take_subset)
    moreover have "set (take (?n - m) ?sc) \<subseteq> set ?sc" by (rule set_take_subset)
    ultimately show ?thesis unfolding sort_ind_def using E(2) C(2) lenc by auto
  qed
  have chk: "list_all (\<lambda>(e, c). (e = PosInf) = t_less c PosInf) (zip et ct)"
    unfolding list_all_length using cons lenc by (simp add: t_less_PosInf_iff)
  note RE = rank_inverse(1)[OF ft fi, of et] and RC = rank_inverse(1)[OF ft fi, of ct]
  have fe: "on_floats S (map real (on_indices S ?sg)) = ?sg"
    by (rule argsort_of_rank[OF ft fi ff])
  have fc: "on_floats S (map uminus (map real (on_indices S ?sc))) = rev ?sc"
    by (rule argsort_of_negated_rank[OF ft fi ff])
  have dr: "drop m (rev ?sc) = rev (take (?n - m) ?sc)"
    using C(3) lenc by (simp add: drop_rev)
  have si: "take m (on_floats S (map real (on_indices S ?sg)))
            @ drop m (on_floats S (map uminus (map real (on_indices S ?sc)))) = sort_ind"
    unfolding fe fc dr sort_ind_def ..
  have t1: "np_take et (map int sort_ind) = Inr (map ((!) et) sort_ind)"
    by (rule np_take_nat) (use rng in auto)
  have t2: "np_take ct (map int sort_ind) = Inr (map ((!) ct) sort_ind)"
    by (rule np_take_nat) (use rng lenc in auto)
  have t3: "np_take X (map int sort_ind) = Inr (map ((!) X) sort_ind)"
    by (rule np_take_nat) (use rng lenX in auto)
  show "permute_observations_by_event_and_censoring_time S et ct X
           = Inr (map ((!) et) sort_ind, map ((!) ct) sort_ind, map ((!) X) sort_ind)"
    unfolding permute_observations_by_event_and_censoring_time_def
    by (simp only: chk RE RC err_bind_Inr Let_def m_def[symmetric] si dist t1 t2 t3 not_True_eq_False
        not_not if_False if_True)
qed

lemma set_insert_by [simp]: "set (insert_by le x ys) = insert x (set ys)"
  by (induction ys) auto

lemma distinct_insert_by: "distinct ys \<Longrightarrow> x \<notin> set ys \<Longrightarrow> distinct (insert_by le x ys)"
  by (induction ys) auto

lemma sorted_insert_by:
  assumes tot: "\<And>a b. R a b \<or> R b a" and tr: "\<And>a b c. R a b \<Longrightarrow> R b c \<Longrightarrow> R a c"
  shows "sorted_wrt R ys \<Longrightarrow> sorted_wrt R (insert_by R x ys)"
proof (induction ys)
  case Nil
  then show ?case by simp
next
  case (Cons y ys)
  show ?case
  proof (cases "R x y")
    case True
    with Cons.prems tr show ?thesis by auto
  next
    case False
    with tot have "R y x" by blast
    with Cons False show ?thesis by auto
  qed
qed

lemma set_foldr_insert_by: "set (foldr (insert_by R) zs []) = set zs"
  by (induction zs) auto

lemma distinct_foldr_insert_by: "distinct zs \<Longrightarrow> distinct (foldr (insert_by R) zs [])"
  by (induction zs) (auto simp: set_foldr_insert_by distinct_insert_by)

lemma sorted_foldr_insert_by:
  assumes tot: "\<And>a b. R a b \<or> R b a" and tr: "\<And>a b c. R a b \<Longrightarrow> R b c \<Longrightarrow> R a c"
  shows "sorted_wrt R (foldr (insert_by R) zs [])"
  by (induction zs) (auto intro: sorted_insert_by[OF tot tr])

lemma is_argsort_argsort_by:
  assumes tot: "\<And>a b. le a b \<or> le b a" and tr: "\<And>a b c. le a b \<Longrightarrow> le b c \<Longrightarrow> le a c"
  shows "is_argsort le (argsort_by le)"
  unfolding is_argsort_def
proof (intro allI conjI)
  fix xs :: "'a list"
  let ?R = "\<lambda>i j. le (xs ! i) (xs ! j)"
  have tot': "\<And>a b. ?R a b \<or> ?R b a" using tot by blast
  have tr': "\<And>a b c. ?R a b \<Longrightarrow> ?R b c \<Longrightarrow> ?R a c" using tr by blast
  show "distinct (argsort_by le xs)"
    unfolding argsort_by_def by (rule distinct_foldr_insert_by) (rule distinct_upt)
  show "set (argsort_by le xs) = {0..<length xs}"
    unfolding argsort_by_def by (simp add: set_foldr_insert_by)
  show "sorted_wrt le (map ((!) xs) (argsort_by le xs))"
    unfolding argsort_by_def sorted_wrt_map
    by (rule sorted_foldr_insert_by[where R = ?R, OF tot' tr'])
qed

lemma t_le_total: "t_le a b \<or> t_le b a"
  by (cases a; cases b) auto

lemma stable_argsorts_valid:
  "is_argsort t_le (on_times stable_argsorts)"
  "is_argsort (\<le>) (on_indices stable_argsorts)"
  "is_argsort (\<le>) (on_floats stable_argsorts)"
proof -
  show "is_argsort t_le (on_times stable_argsorts)"
    unfolding stable_argsorts_def using t_le_total t_le_trans
    by (simp add: is_argsort_argsort_by)
  show "is_argsort (\<le>) (on_indices stable_argsorts)"
    unfolding stable_argsorts_def by (simp add: is_argsort_argsort_by[of "(\<le>)"] nat_le_linear)
  show "is_argsort (\<le>) (on_floats stable_argsorts)"
    unfolding stable_argsorts_def by (simp add: is_argsort_argsort_by[of "(\<le>)"] linear)
qed

lemma ex_sort_1: "argsort_by t_le [PosInf, At 2, At 1] = [2, 1, 0]"
  by (simp add: argsort_by_def)

lemma ex_sort_2: "argsort_by t_le [At 3, PosInf, PosInf] = [0, 1, 2]"
  by (simp add: argsort_by_def)

lemma ex_sort_3: "argsort_by (\<le>) [2, Suc 0, 0] = [2, 1, 0]"
  by (simp add: argsort_by_def)

lemma ex_sort_4: "argsort_by (\<le>) [0, Suc 0, 2] = [0, 1, 2]"
  by (simp add: argsort_by_def)

lemma ex_sort_5: "argsort_by (\<le>) [2, 1, 0 :: real] = [2, 1, 0]"
  by (simp add: argsort_by_def)

lemma ex_sort_6: "argsort_by (\<le>) [0, - 1, - 2 :: real] = [2, 1, 0]"
  by (simp add: argsort_by_def)

subsection \<open>What the constructor and the permutation reject\<close>

lemma never_in_risk_set_iff:
  assumes len: "length ct = length et"
  shows "list_all (\<lambda>a. 1 \<le> a) (count_risk_set_appearance et ct)
         \<longleftrightarrow> (\<forall>i < length et. \<exists>t \<in> set et. t \<noteq> PosInf \<and> t_le t (ct ! i) \<and> t_le t (et ! i))"
proof -
  have l: "length (count_risk_set_appearance et ct) = length et"
    using length_count_risk_set_appearance[of et ct] len by simp
  have nth: "1 \<le> count_risk_set_appearance et ct ! i
             \<longleftrightarrow> (\<exists>t \<in> set et. t \<noteq> PosInf \<and> t_le t (ct ! i) \<and> t_le t (et ! i))"
    if i: "i < length et" for i
  proof -
    let ?Q = "\<lambda>t. t \<noteq> PosInf \<and> t_le t (ct ! i) \<and> t_le t (et ! i)"
    have "count_risk_set_appearance et ct ! i = int (length (filter ?Q et))"
      using count_risk_set_appearance_nth[of et ct i] len i by simp
    moreover have "1 \<le> int (length (filter ?Q et)) \<longleftrightarrow> filter ?Q et \<noteq> []"
      by (cases "filter ?Q et") simp_all
    moreover have "filter ?Q et \<noteq> [] \<longleftrightarrow> (\<exists>t \<in> set et. ?Q t)"
      by (auto simp: filter_empty_conv)
    ultimately show ?thesis by simp
  qed
  show ?thesis unfolding list_all_length l using nth by blast
qed

lemma CoxModel_init_event_unsorted:
  "list_ex (\<lambda>(a, b). t_less b a) (zip (butlast et) (tl et))
     \<Longrightarrow> CoxModel_init et ct X = Inl (ValueError EventTimesNotSorted)"
  unfolding CoxModel_init_def by (simp only: if_True)

lemma CoxModel_init_censoring_unsorted:
  "\<not> list_ex (\<lambda>(a, b). t_less b a) (zip (butlast et) (tl et))
     \<Longrightarrow> list_ex (\<lambda>(a, b). t_less a b) (zip (butlast ct) (tl ct))
     \<Longrightarrow> CoxModel_init et ct X = Inl (ValueError CensoringTimesNotSorted)"
  unfolding CoxModel_init_def by (simp only: if_True if_False)

lemma CoxModel_init_never_in_risk_set:
  "\<not> list_ex (\<lambda>(a, b). t_less b a) (zip (butlast et) (tl et))
     \<Longrightarrow> \<not> list_ex (\<lambda>(a, b). t_less a b) (zip (butlast ct) (tl ct))
     \<Longrightarrow> \<not> list_all (\<lambda>a. 1 \<le> a) (count_risk_set_appearance et ct)
     \<Longrightarrow> CoxModel_init et ct X = Inl (ValueError NeverInRiskSet)"
  unfolding CoxModel_init_def Let_def by (simp only: if_True if_False not_False_eq_True)

lemma permute_inconsistent:
  "\<not> list_all (\<lambda>(e, c). (e = PosInf) = t_less c PosInf) (zip et ct)
     \<Longrightarrow> permute_observations_by_event_and_censoring_time S et ct X
           = Inl (ValueError InconsistentCensoringIndicators)"
  unfolding permute_observations_by_event_and_censoring_time_def
  by (simp only: if_True not_False_eq_True)

subsection \<open>The hazard matrix at tied times\<close>

lemma tie_model:
  "CoxModel_init [At 1, PosInf] [PosInf, At 1] [[1], [2]]
     = Inr \<lparr> n_event = 1, event_time = [At 1, PosInf], censoring_time = [PosInf, At 1],
             n_appearance_in_risk_set = [1, 1], risk_set_end_index = [0],
             model_X = [[1], [2]] \<rparr>"
  by (simp add: CoxModel_init_def count_risk_set_appearance_def)

lemma tie_S: "sum_over_risk_set [1, 1] [0] = Inr [1]"
  by (simp add: sum_over_risk_set_def np_take_def np_cumsum_def py_from_def py_upto_def
        np_reverse_cumsum_def np_add_def)

lemma tie_M: "compute_matrix (HazardMatrix_init [1, 1] [1] [0] [1, 1]) = Inr [[1, 0]]"
  by (simp add: compute_matrix_def HazardMatrix_init_def np_outer_def np_recip_def np_triu_def
      np_index_def py_assign_from_def Let_def)

lemma tie_Tdot: "hm_Tdot (HazardMatrix_init [1, 1] [1] [0] [1, 1]) [1] = Inr [1, 1]"
  by (simp add: hm_Tdot_def HazardMatrix_init_def np_mul_def np_broadcast_def np_recip_def
      np_cumsum_def np_take_def Let_def)

lemma tie_MT: "mat_T_vec [[1, 0]] 2 [1] = [1, 0]"
  by (simp add: mat_T_vec_def upt_rec)

lemma tie_soe: "sum_over_events (HazardMatrix_init [1, 1] [1] [0] [1, 1]) = Inr [1, 0]"
  by (simp add: sum_over_events_def HazardMatrix_init_def np_mul_def np_broadcast_def np_recip_def
      np_cumsum_def np_take_def np_index_def py_assign_from_def Let_def)

lemma tie_dot: "hm_dot (HazardMatrix_init [1, 1] [1] [0] [1, 1]) [3, 5] = Inr [3]"
  by (simp add: hm_dot_def HazardMatrix_init_def np_mul_def np_broadcast_def np_recip_def
      sum_over_risk_set_def np_take_def np_cumsum_def py_from_def py_upto_def
        np_reverse_cumsum_def np_add_def Let_def)

subsection \<open>Shift of the linear predictor\<close>

lemma fold_max_shift: "fold max (map (\<lambda>x. x + s) xs) (a + s) = fold max xs a + (s::real)"
proof (induction xs arbitrary: a)
  case Nil
  then show ?case by simp
next
  case (Cons x xs)
  have "max (x + s) (a + s) = max x a + s" by (simp add: max_def)
  with Cons.IH[of "max x a"] show ?case by simp
qed

lemma shift_log_hazard_shift:
  "shift_log_hazard (map (\<lambda>x. x + s) eta) off = shift_log_hazard eta off"
proof (cases eta)
  case Nil
  then show ?thesis by (simp add: shift_log_hazard_def)
next
  case (Cons a xs)
  then show ?thesis
    by (simp add: shift_log_hazard_def fold_max_shift comp_def)
qed

lemma loglik_and_gradient_from_shift:
  "loglik_and_gradient_from mdl (map (\<lambda>x. x + s) eta) lo = loglik_and_gradient_from mdl eta lo"
  by (simp add: loglik_and_gradient_from_def compute_hazard_increase_from_def shift_log_hazard_shift)

lemma fold_max_ge: "a \<le> fold max xs (a::real)"
proof (induction xs arbitrary: a)
  case Nil
  then show ?case by simp
next
  case (Cons x xs)
  have "a \<le> max x a" by simp
  also have "\<dots> \<le> fold max xs (max x a)" by (rule Cons.IH)
  finally show ?case by simp
qed

lemma shift_log_hazard_nonempty:
  "eta \<noteq> [] \<Longrightarrow> \<exists>m. shift_log_hazard eta 0 = Inr (map (\<lambda>x. x - m) eta)"
  by (cases eta) (auto simp: shift_log_hazard_def)

lemma n_event_eq_finite_count:
  "length et - length (filter (\<lambda>t. t = PosInf) et) = length (filter (\<lambda>t. t \<noteq> PosInf) et)"
proof -
  have "length (filter (\<lambda>t. t = PosInf) et) + length (filter (\<lambda>t. \<not> t = PosInf) et) = length et"
    by (rule sum_length_filter_compl)
  then show ?thesis by simp
qed

lemma accepted_model_facts:
  assumes init: "CoxModel_init et ct X = Inr mdl"
    and len: "length ct = length et"
  shows "n_appearance_in_risk_set mdl = count_risk_set_appearance et ct"
    and "length (n_appearance_in_risk_set mdl) = length et"
    and "\<And>i. i < length et \<Longrightarrow> 1 \<le> n_appearance_in_risk_set mdl ! i"
    and "\<And>i. i < length et \<Longrightarrow> n_appearance_in_risk_set mdl ! i \<le> int (n_event mdl)"
    and "et \<noteq> [] \<Longrightarrow> 1 \<le> n_event mdl"
    and "model_X mdl = X"
proof -
  note D = CoxModel_init_InrD[OF init]
  show na: "n_appearance_in_risk_set mdl = count_risk_set_appearance et ct"
    by (subst D(4)) simp
  show mx: "model_X mdl = X" by (subst D(4)) simp
  have nev: "n_event mdl = length (filter (\<lambda>t. t \<noteq> PosInf) et)"
    by (subst D(4)) (simp add: n_event_eq_finite_count)
  show ln: "length (n_appearance_in_risk_set mdl) = length et"
    unfolding na using length_count_risk_set_appearance[of et ct] len by simp
  from D(3) have all: "\<forall>i < length et. 1 \<le> count_risk_set_appearance et ct ! i"
    using ln unfolding na list_all_length by simp
  then show ge: "1 \<le> n_appearance_in_risk_set mdl ! i" if "i < length et" for i
    using that by (simp add: na)
  show "n_appearance_in_risk_set mdl ! i \<le> int (n_event mdl)" if i: "i < length et" for i
  proof -
    have "count_risk_set_appearance et ct ! i
          = int (length (filter (\<lambda>t. t \<noteq> PosInf \<and> t_le t (ct ! i) \<and> t_le t (et ! i)) et))"
      using count_risk_set_appearance_nth[of et ct i] len i by simp
    moreover have "length (filter (\<lambda>t. t \<noteq> PosInf \<and> t_le t (ct ! i) \<and> t_le t (et ! i)) et)
                   \<le> length (filter (\<lambda>t. t \<noteq> PosInf) et)"
      by (rule length_filter_mono) simp
    ultimately show ?thesis unfolding na nev by simp
  qed
  show "1 \<le> n_event mdl" if ne: "et \<noteq> []"
  proof -
    from ne have "0 < length et" by simp
    with all have "1 \<le> count_risk_set_appearance et ct ! 0" by blast
    moreover have "count_risk_set_appearance et ct ! 0
          = int (length (filter (\<lambda>t. t \<noteq> PosInf \<and> t_le t (ct ! 0) \<and> t_le t (et ! 0)) et))"
      using count_risk_set_appearance_nth[of et ct 0] len ne by simp
    moreover have "length (filter (\<lambda>t. t \<noteq> PosInf \<and> t_le t (ct ! 0) \<and> t_le t (et ! 0)) et)
                   \<le> length (filter (\<lambda>t. t \<noteq> PosInf) et)"
      by (rule length_filter_mono) simp
    ultimately show ?thesis unfolding nev by linarith
  qed
qed

lemma length_py_assign_from [simp]: "length (py_assign_from xs i c) = length xs"
  by (auto simp: py_assign_from_def Let_def min_def)

lemma np_mul_same_length:
  "length xs = length ys \<Longrightarrow> np_mul xs ys = Inr (map2 (*) xs ys)"
  by (simp add: np_mul_def np_broadcast_def)

lemma np_sub_same_length:
  "length xs = length ys \<Longrightarrow> np_sub xs ys = Inr (map2 (-) xs ys)"
  by (simp add: np_sub_def np_broadcast_def)

lemma sum_over_events_returns:
  assumes S: "hm_sum_over_risk_set hm \<noteq> []"
    and na: "length (hm_n_appearance_in_risk_set hm) = length (hm_hazard_increase hm)"
    and rng: "\<forall>a \<in> set (hm_n_appearance_in_risk_set hm).
                1 \<le> a \<and> a \<le> int (length (hm_sum_over_risk_set hm))"
    and r: "hm_risk_set_end_index hm \<noteq> []"
  shows "\<exists>soe. sum_over_events hm = Inr soe \<and> length soe = length (hm_hazard_increase hm)"
proof -
  let ?cs = "np_cumsum (np_recip (hm_sum_over_risk_set hm))"
  let ?idx = "map (\<lambda>a. a - 1) (hm_n_appearance_in_risk_set hm)"
  have lcs: "length ?cs = length (hm_sum_over_risk_set hm)" by (simp add: np_recip_def)
  have "\<forall>i \<in> set ?idx. 0 \<le> i \<and> i < int (length ?cs)"
    unfolding lcs using rng by auto
  from np_take_in_range[OF this]
  have tk: "np_take ?cs ?idx = Inr (map (\<lambda>i. ?cs ! nat i) ?idx)" .
  have ml: "np_mul (map (\<lambda>i. ?cs ! nat i) ?idx) (hm_hazard_increase hm)
            = Inr (map2 (*) (map (\<lambda>i. ?cs ! nat i) ?idx) (hm_hazard_increase hm))"
    by (rule np_mul_same_length) (simp add: na)
  have ix: "np_index (hm_risk_set_end_index hm) 0 = Inr (hm_risk_set_end_index hm ! 0)"
    using r by (simp add: np_index_def)
  show ?thesis
    unfolding sum_over_events_def Let_def
    by (simp only: tk ml ix err_bind_Inr) (simp add: na)
qed

lemma ln_shifted_sum:
  fixes f :: "nat \<Rightarrow> real"
  assumes "k \<le> r"
  shows "ln (\<Sum>i = k..r. exp (f i - m)) = ln (\<Sum>i = k..r. exp (f i)) - m"
proof -
  have pos: "0 < (\<Sum>i = k..r. exp (f i))"
    by (rule sum_pos) (use assms in auto)
  have "(\<Sum>i = k..r. exp (f i - m)) = exp (- m) * (\<Sum>i = k..r. exp (f i))"
    by (simp add: sum_distrib_left exp_diff exp_minus field_simps)
  then have "ln (\<Sum>i = k..r. exp (f i - m)) = ln (exp (- m)) + ln (\<Sum>i = k..r. exp (f i))"
    using pos by (simp add: ln_mult)
  then show ?thesis by simp
qed

section \<open>The claims\<close>

text \<open>
  C8: \<open>sinc 0\<close> is exactly 1; for \<open>0 < |x| < 2e-4\<close> the result is \<open>1 - x\<^sup>2/6\<close>;
  for \<open>2e-4 \<le> |x| < 0.006\<close> it is \<open>1 - (x\<^sup>2/6) (1 - x\<^sup>2/20)\<close>; and for
  \<open>|x| \<ge> 0.006\<close> it is \<open>sin x / x\<close>.
\<close>

theorem sinc_branches:
  "sinc 0 = 1
   \<and> (\<forall>x. 0 < \<bar>x\<bar> \<and> \<bar>x\<bar> < 2 / 10000 \<longrightarrow> sinc x = 1 - x\<^sup>2 / 6)
   \<and> (\<forall>x. 2 / 10000 \<le> \<bar>x\<bar> \<and> \<bar>x\<bar> < 6 / 1000 \<longrightarrow> sinc x = 1 - (x\<^sup>2 / 6) * (1 - x\<^sup>2 / 20))
   \<and> (\<forall>x. 6 / 1000 \<le> \<bar>x\<bar> \<longrightarrow> sinc x = sin x / x)"
  by (auto simp: sinc_def Let_def power2_eq_square)

theorem sinc_branches_witness:
  "sinc 0 = 1
   \<and> (0 < \<bar>1 / 10000 :: real\<bar> \<and> \<bar>1 / 10000 :: real\<bar> < 2 / 10000 \<and> sinc (1 / 10000) = 1 - (1 / 10000)\<^sup>2 / 6)
   \<and> (2 / 10000 \<le> \<bar>- 1 / 1000 :: real\<bar> \<and> \<bar>- 1 / 1000 :: real\<bar> < 6 / 1000
        \<and> sinc (- 1 / 1000) = 1 - ((- 1 / 1000)\<^sup>2 / 6) * (1 - (- 1 / 1000)\<^sup>2 / 20))
   \<and> (6 / 1000 \<le> \<bar>1 :: real\<bar> \<and> sinc 1 = sin 1 / 1)"
proof -
  have a: "0 < \<bar>1 / 10000 :: real\<bar> \<and> \<bar>1 / 10000 :: real\<bar> < 2 / 10000" by simp
  have b: "2 / 10000 \<le> \<bar>- 1 / 1000 :: real\<bar> \<and> \<bar>- 1 / 1000 :: real\<bar> < 6 / 1000" by simp
  have c: "6 / 1000 \<le> \<bar>1 :: real\<bar>" by simp
  from sinc_branches have "sinc 0 = 1"
    and "0 < \<bar>1 / 10000 :: real\<bar> \<and> \<bar>1 / 10000 :: real\<bar> < 2 / 10000 \<longrightarrow> sinc (1 / 10000) = 1 - (1 / 10000)\<^sup>2 / 6"
    and "2 / 10000 \<le> \<bar>- 1 / 1000 :: real\<bar> \<and> \<bar>- 1 / 1000 :: real\<bar> < 6 / 1000 \<longrightarrow>
         sinc (- 1 / 1000) = 1 - ((- 1 / 1000)\<^sup>2 / 6) * (1 - (- 1 / 1000)\<^sup>2 / 20)"
    and "6 / 1000 \<le> \<bar>1 :: real\<bar> \<longrightarrow> sinc 1 = sin 1 / 1"
    by blast+
  with a b c show ?thesis by blast
qed

text \<open>
  C2: for an array \<open>arr\<close> of length \<open>n\<close> and an index array of length \<open>n_event\<close> whose
  entries all lie in \<open>[n_event - 1, n - 1]\<close>, \<open>_sum_over_risk_set\<close> returns an array of
  length \<open>n_event\<close> whose \<open>k\<close>-th entry is the inclusive sum of \<open>arr[i]\<close> for
  \<open>i\<close> from \<open>k\<close> to \<open>risk_set_end_index[k]\<close>.
\<close>

theorem sum_over_risk_set_brute_force:
  assumes "\<forall>k < length risk_set_end_idx.
             int (length risk_set_end_idx) - 1 \<le> risk_set_end_idx ! k
             \<and> risk_set_end_idx ! k \<le> int (length arr) - 1"
    and "k < length risk_set_end_idx"
  shows "\<exists>ys. sum_over_risk_set arr risk_set_end_idx = Inr ys
           \<and> length ys = length risk_set_end_idx
           \<and> ys ! k = (\<Sum>i = k..nat (risk_set_end_idx ! k). arr ! i)"
proof -
  from assms(2) have "risk_set_end_idx \<noteq> []" by auto
  from sum_over_risk_set_in_range[OF assms(1) this] assms(2) show ?thesis by blast
qed

theorem sum_over_risk_set_brute_force_witness:
  "int (length [3, 2 :: int]) - 1 \<le> [3, 2] ! 0 \<and> [3, 2 :: int] ! 0 \<le> int (length [1, 2, 3, 4 :: real]) - 1
   \<and> int (length [3, 2 :: int]) - 1 \<le> [3, 2] ! 1 \<and> [3, 2 :: int] ! 1 \<le> int (length [1, 2, 3, 4 :: real]) - 1
   \<and> (1 :: nat) < length [3, 2 :: int]
   \<and> (\<exists>ys. sum_over_risk_set [1, 2, 3, 4] [3, 2] = Inr ys \<and> length ys = length [3, 2 :: int]
          \<and> ys ! 1 = (\<Sum>i = 1..nat ([3, 2] ! 1). [1, 2, 3, 4] ! i))
   \<and> sum_over_risk_set [1, 2, 3, 4] [3, 2] = Inr [10, 5]"
proof -
  have h1: "\<forall>k < length [3, 2 :: int]. int (length [3, 2 :: int]) - 1 \<le> [3, 2] ! k
        \<and> [3, 2] ! k \<le> int (length [1, 2, 3, 4 :: real]) - 1"
    by (simp add: less_Suc_eq)
  have h2: "(1 :: nat) < length [3, 2 :: int]" by simp
  have ev: "sum_over_risk_set [1, 2, 3, 4] [3, 2] = Inr [10, 5]"
    by (simp add: sum_over_risk_set_def np_take_def np_cumsum_def py_from_def py_upto_def
        np_reverse_cumsum_def np_add_def)
  have inst: "int (length [3, 2 :: int]) - 1 \<le> [3, 2] ! 0 \<and> [3, 2 :: int] ! 0 \<le> int (length [1, 2, 3, 4 :: real]) - 1
   \<and> int (length [3, 2 :: int]) - 1 \<le> [3, 2] ! 1 \<and> [3, 2 :: int] ! 1 \<le> int (length [1, 2, 3, 4 :: real]) - 1"
    by simp
  from sum_over_risk_set_brute_force[OF h1 h2] inst h2 ev show ?thesis by blast
qed

text \<open>
  C9: for an input accepted by the constructor in which every individual with a finite
  event time has censoring time \<open>+\<infinity>\<close>, \<open>risk_set_end_index\<close> is non-increasing and
  each entry lies in \<open>[n_event - 1, n - 1]\<close>; hence, for an array of length \<open>n\<close>,
  every index \<open>risk_set_end_index[k] - n_event + 1\<close> that \<open>_sum_over_risk_set\<close> uses is
  non-negative and inside \<^verbatim>\<open>np.cumsum(arr[(n_event - 1):])\<close>.
\<close>

theorem risk_set_end_index_monotone_in_range:
  assumes "CoxModel_init et ct X = Inr mdl"
    and "length et = length ct"
    and "\<forall>i < length et. et ! i \<noteq> PosInf \<longrightarrow> ct ! i = PosInf"
  shows "length (risk_set_end_index mdl) = n_event mdl
     \<and> sorted_wrt (\<ge>) (risk_set_end_index mdl)
     \<and> (\<forall>k < n_event mdl. int (n_event mdl) - 1 \<le> risk_set_end_index mdl ! k
                             \<and> risk_set_end_index mdl ! k \<le> int (length et) - 1)
     \<and> (\<forall>arr :: real list. \<forall>k < n_event mdl. length arr = length et \<longrightarrow>
           0 \<le> risk_set_end_index mdl ! k - int (n_event mdl) + 1
           \<and> risk_set_end_index mdl ! k - int (n_event mdl) + 1
               < int (length (np_cumsum (py_from arr (int (n_event mdl) - 1)))))"
proof -
  note P = risk_set_end_index_props[OF assms]
  have srt: "sorted_wrt (\<ge>) (risk_set_end_index mdl)"
    unfolding sorted_wrt_iff_nth_less using P(1) P(5) by (simp add: less_imp_le)
  have rng: "\<forall>k < n_event mdl. int (n_event mdl) - 1 \<le> risk_set_end_index mdl ! k
                             \<and> risk_set_end_index mdl ! k \<le> int (length et) - 1"
    using P(3) P(4) by blast
  have idx: "0 \<le> risk_set_end_index mdl ! k - int (n_event mdl) + 1
           \<and> risk_set_end_index mdl ! k - int (n_event mdl) + 1
               < int (length (np_cumsum (py_from arr (int (n_event mdl) - 1))))"
    if k: "k < n_event mdl" and arr: "length arr = length et" for arr :: "real list" and k
  proof -
    from k have pos: "1 \<le> n_event mdl" by simp
    then have "py_from arr (int (n_event mdl) - 1) = drop (n_event mdl - 1) arr"
      by (subst py_from_nonneg) (simp_all add: nat_diff_distrib')
    then have "int (length (np_cumsum (py_from arr (int (n_event mdl) - 1))))
               = int (length et - (n_event mdl - 1))"
      using arr by simp
    also have "\<dots> = int (length et) - (int (n_event mdl) - 1)"
      using pos P(2) by (simp add: of_nat_diff)
    finally show ?thesis using P(3)[OF k] P(4)[OF k] by linarith
  qed
  from P(1) srt rng idx show ?thesis by blast
qed

theorem risk_set_end_index_monotone_in_range_witness:
  "CoxModel_init [At 1, At 2, PosInf] [PosInf, PosInf, At 5] [[1], [0], [2]]
     = Inr \<lparr> n_event = 2, event_time = [At 1, At 2, PosInf],
             censoring_time = [PosInf, PosInf, At 5],
             n_appearance_in_risk_set = [1, 2, 2], risk_set_end_index = [2, 2],
             model_X = [[1], [0], [2]] \<rparr>
   \<and> length [At 1, At 2, PosInf] = length [PosInf, PosInf, At 5]
   \<and> [PosInf, PosInf, At 5] ! 0 = PosInf \<and> [PosInf, PosInf, At 5] ! 1 = PosInf
   \<and> [At 1, At 2, PosInf] ! 2 = PosInf
   \<and> sorted_wrt (\<ge>) [2, 2 :: int]
   \<and> int 2 - 1 \<le> [2, 2 :: int] ! 0 \<and> [2, 2 :: int] ! 0 \<le> int 3 - 1
   \<and> int 2 - 1 \<le> [2, 2 :: int] ! 1 \<and> [2, 2 :: int] ! 1 \<le> int 3 - 1"
proof -
  let ?m = "\<lparr> n_event = 2, event_time = [At 1, At 2, PosInf],
             censoring_time = [PosInf, PosInf, At 5],
             n_appearance_in_risk_set = [1, 2, 2], risk_set_end_index = [2, 2],
             model_X = [[1], [0], [2]] \<rparr>"
  have init: "CoxModel_init [At 1, At 2, PosInf] [PosInf, PosInf, At 5] [[1], [0], [2]] = Inr ?m"
    by (simp add: CoxModel_init_def count_risk_set_appearance_def)
  have len: "length [At 1, At 2, PosInf] = length [PosInf, PosInf, At 5]" by simp
  have unc: "\<forall>i < length [At 1, At 2, PosInf].
         [At 1, At 2, PosInf] ! i \<noteq> PosInf \<longrightarrow> [PosInf, PosInf, At 5] ! i = PosInf"
    by (simp add: less_Suc_eq)
  have inst: "[PosInf, PosInf, At 5] ! 0 = PosInf \<and> [PosInf, PosInf, At 5] ! 1 = PosInf
   \<and> [At 1, At 2, PosInf] ! 2 = PosInf"
    by simp
  from risk_set_end_index_monotone_in_range[OF init len unc]
  have "sorted_wrt (\<ge>) [2, 2 :: int]"
    and r: "\<forall>k < 2. int 2 - 1 \<le> [2, 2 :: int] ! k \<and> [2, 2 :: int] ! k \<le> int 3 - 1"
    by simp_all
  moreover from r have "int 2 - 1 \<le> [2, 2 :: int] ! 0 \<and> [2, 2 :: int] ! 0 \<le> int 3 - 1"
    and "int 2 - 1 \<le> [2, 2 :: int] ! 1 \<and> [2, 2 :: int] ! 1 \<le> int 3 - 1"
    by simp_all
  ultimately show ?thesis using init len inst by blast
qed

text \<open>
  C4 (the constructor's \<open>risk_set_end_index[k]\<close> against the count of censoring times
  greater than or equal to the \<open>k\<close>-th event time, minus 1), evaluated where a censoring
  time equals an event time: individual 0 has its event at time 1 and individual 1 is
  censored at time 1. The constructor accepts the input and counts individual 1 in the
  risk set of that event (\<open>n_appearance_in_risk_set = [1, 1]\<close>, from \<^verbatim>\<open>censoring_time >= t\<close>),
  yet sets \<open>risk_set_end_index = [0]\<close> (from \<^verbatim>\<open>t < censoring_time\<close>), where the count of
  censoring times \<open>\<ge> 1\<close>, minus 1, is 1.
\<close>

theorem risk_set_end_index_at_censoring_tie:
  "CoxModel_init [At 1, PosInf] [PosInf, At 1] [[1], [2]]
     = Inr \<lparr> n_event = 1, event_time = [At 1, PosInf], censoring_time = [PosInf, At 1],
             n_appearance_in_risk_set = [1, 1], risk_set_end_index = [0],
             model_X = [[1], [2]] \<rparr>
   \<and> int (length (filter (\<lambda>c. t_le ([At 1, PosInf] ! 0) c) [PosInf, At 1])) - 1 = 1"
  by (simp add: CoxModel_init_def count_risk_set_appearance_def)




text \<open>
  C3 (after a failed outer acceptance test the algorithm runs a fresh inner loop and draws
  a new pair \<open>(U, Z)\<close>), evaluated on the run of \<open>rv(0.5, 1)\<close> with the random source
  \<open>rejected_once_src\<close>. The first pass of the outer loop draws \<open>V1, W1, W2\<close>, accepts
  \<open>U = 0\<close> and \<open>Z = Z0\<close>, draws \<open>V2\<close> and \<open>N = 2\<close>, gets \<open>X = -2\<close> and fails the
  outer test after 5 draws. In the second pass \<open>aug_accepted\<close> is still true: the inner
  loop returns at once without a draw, draws 5 and 6 are taken as \<open>V2\<close> and \<open>N\<close>, the
  same \<open>U\<close> and \<open>Z\<close> are used again, \<open>X = 2\<close> is accepted after 7 draws in all,
  and \<open>rv\<close> returns \<open>2 powr (-1) = 1/2\<close>.
\<close>

theorem rv_reuses_auxiliary_pair_after_rejection:
  "\<exists>k s1 s2 Z0.
      rv_constants (1 / 2) 1 = Inr k
    \<and> outer_pass k rejected_once_src rv_initial = Some (Inr s1)
    \<and> \<not> accepted s1 \<and> pos s1 = 5
    \<and> var_U s1 = Some 0 \<and> var_Z s1 = Some Z0 \<and> var_X s1 = Some (- 2)
    \<and> inner_loop k rejected_once_src s1 = Some (Inr s1)
    \<and> outer_pass k rejected_once_src s1 = Some (Inr s2)
    \<and> accepted s2 \<and> pos s2 = 7
    \<and> var_U s2 = Some 0 \<and> var_Z s2 = Some Z0 \<and> var_X s2 = Some 2
    \<and> rv (1 / 2) 1 rejected_once_src = Some (Inr (1 / 2))"
proof -
  let ?src = rejected_once_src
  from rv_constants_half_one obtain K where
    K: "rv_constants (1 / 2) 1 = Inr K"
    and Ka: "k_alpha K = 1 / 2" and Kb: "k_b K = 1" and Kla: "k_lam_alpha K = 1"
    and Kg: "k_gamma K = 1 / 4" and Ksg: "k_sqrt_gamma K = 1 / 2"
    and Kc1: "k_c1 K = sqrt (pi / 2)"
    and Kxi: "k_xi K = (1 + sqrt 2 * ((2 + sqrt (pi / 2)) * (1 / 2))) / pi"
    and Kw2: "0 < k_w2 K" and Kw3: "k_w3 K = k_xi K * pi"
    by blast
  have c1pos: "0 < k_c1 K" by (simp add: Kc1)
  from inner_pass_half_one[OF Ka Kla Kg Ksg Kc1 Kxi Kw2 Kw3] obtain Z0 where
    Z0: "0 < Z0" "Z0 \<le> 1"
    and ip: "inner_pass K ?src rv_initial
             = Inr (rv_initial\<lparr> pos := 3, var_U := Some 0, var_z := Some (4 / 3),
                                 var_Z := Some Z0, aug_accepted := True \<rparr>)"
    by blast
  define s0 where "s0 = rv_initial\<lparr> pos := 3, var_U := Some 0, var_z := Some (4 / 3),
                                 var_Z := Some Z0, aug_accepted := True \<rparr>"
  define s1 where "s1 = s0\<lparr> pos := pos s0 + 2, var_X := Some (- 2), var_c := var_c s0,
                   var_E2 := var_E2 s0, accepted := False \<rparr>"
  define s2 where "s2 = s1\<lparr> pos := pos s1 + 2, var_X := Some 2, var_c := Some 0,
                   var_E2 := Some (- ln Z0), accepted := True \<rparr>"
  have il0: "inner_loop K ?src rv_initial = Some (Inr s0)"
  proof -
    have "\<not> aug_accepted rv_initial" by (simp add: rv_initial_def)
    from inner_loop_step[OF this ip[folded s0_def]]
    have "inner_loop K ?src rv_initial = inner_loop K ?src s0" .
    also have "\<dots> = Some (Inr s0)" by (rule inner_loop_skip) (simp add: s0_def)
    finally show ?thesis .
  qed
  have or0: "outer_rest K ?src s0 = Inr s1"
    unfolding s1_def
    by (rule outer_rest_rejects[OF Ka Kb Kla c1pos])
       (simp_all add: s0_def rejected_once_src_def)
  have op0: "outer_pass K ?src rv_initial = Some (Inr s1)"
    by (simp add: outer_pass_def il0 or0)
  have aug1: "aug_accepted s1" by (simp add: s1_def s0_def)
  have il1: "inner_loop K ?src s1 = Some (Inr s1)" by (rule inner_loop_skip[OF aug1])
  have or1: "outer_rest K ?src s1 = Inr s2"
    unfolding s2_def
    by (rule outer_rest_accepts[OF Ka Kb Kla c1pos _ _ _ Z0])
       (simp_all add: s1_def s0_def rejected_once_src_def)
  have op1: "outer_pass K ?src s1 = Some (Inr s2)"
    by (simp add: outer_pass_skip[OF aug1] or1)
  have n0: "\<not> accepted rv_initial" by (simp add: rv_initial_def)
  have n1: "\<not> accepted s1" by (simp add: s1_def)
  have a2: "accepted s2" by (simp add: s2_def)
  have ol2: "outer_loop K ?src s2 = Some (Inr s2)"
    using a2 by (subst outer_loop.simps) simp
  have ol1: "outer_loop K ?src s1 = Some (Inr s2)"
    using n1 by (subst outer_loop.simps) (simp add: op1 ol2)
  have ol0: "outer_loop K ?src rv_initial = Some (Inr s2)"
    using n0 by (subst outer_loop.simps) (simp add: op0 ol1)
  have res: "rv (1 / 2) 1 ?src = Some (Inr (1 / 2))"
    by (simp add: rv_def K ol0 s2_def read_var_def Kb math_pow_def powr_minus)
  have f1: "pos s1 = 5 \<and> var_U s1 = Some 0 \<and> var_Z s1 = Some Z0 \<and> var_X s1 = Some (- 2)"
    by (simp add: s1_def s0_def)
  have f2: "pos s2 = 7 \<and> var_U s2 = Some 0 \<and> var_Z s2 = Some Z0 \<and> var_X s2 = Some 2"
    by (simp add: s2_def s1_def s0_def)
  from K op0 n1 f1 il1 op1 a2 f2 res show ?thesis by blast
qed


text \<open>
  C10: for observations with consistent censoring indicators (exactly one of event time
  and censoring time finite for each individual), and for any \<^verbatim>\<open>argsort\<close> that meets
  numpy's contract, \<open>permute_observations_by_event_and_censoring_time\<close> returns arrays
  that pass the constructor's two ordering checks: the permuted event times are
  non-decreasing and the permuted censoring times non-increasing over the whole array.
\<close>

theorem permuted_observations_pass_ordering_checks:
  fixes S :: argsorts
  assumes "is_argsort t_le (on_times S)" and "is_argsort (\<le>) (on_indices S)"
    and "is_argsort (\<le>) (on_floats S)"
    and "length ct = length et" and "length X = length et"
    and "\<forall>i < length et. (et ! i = PosInf) = (ct ! i \<noteq> PosInf)"
  shows "\<exists>et' ct' X'.
           permute_observations_by_event_and_censoring_time S et ct X = Inr (et', ct', X')
         \<and> sorted_wrt t_le et' \<and> sorted_wrt (\<lambda>a b. t_le b a) ct'
         \<and> \<not> list_ex (\<lambda>(a, b). t_less b a) (zip (butlast et') (tl et'))
         \<and> \<not> list_ex (\<lambda>(a, b). t_less a b) (zip (butlast ct') (tl ct'))"
proof -
  define m where "m = length (filter (\<lambda>e. t_less e PosInf) et)"
  let ?sg = "on_times S et" and ?sc = "on_times S ct"
  let ?A = "take m ?sg" and ?B = "rev (take (length et - m) ?sc)"
  note R = permute_observations_result[OF assms, folded m_def]
  have se: "sorted_wrt t_le (map ((!) et) ?sg)" by (rule is_argsortD(4)[OF assms(1)])
  have sc: "sorted_wrt t_le (map ((!) ct) ?sc)" by (rule is_argsortD(4)[OF assms(1)])
  have e1: "sorted_wrt t_le (map ((!) et) ?A)"
  proof -
    have "sorted_wrt t_le (take m (map ((!) et) ?sg))"
      using se by (rule sorted_wrt_take)
    then show ?thesis by (simp only: take_map)
  qed
  have e2: "\<forall>y \<in> set (map ((!) et) ?B). y = PosInf" using R(5) by auto
  have e: "sorted_wrt t_le (map ((!) et) (?A @ ?B))"
    unfolding map_append sorted_wrt_append
  proof (intro conjI ballI)
    show "sorted_wrt t_le (map ((!) et) ?A)" by (rule e1)
    show "sorted_wrt t_le (map ((!) et) ?B)"
      by (rule sorted_wrt_all_related) (use e2 in auto)
    fix x y assume "x \<in> set (map ((!) et) ?A)" "y \<in> set (map ((!) et) ?B)"
    with e2 show "t_le x y" by auto
  qed
  have c1: "\<forall>x \<in> set (map ((!) ct) ?A). x = PosInf" using R(4) by auto
  have c2: "sorted_wrt (\<lambda>a b. t_le b a) (map ((!) ct) ?B)"
  proof -
    have "sorted_wrt t_le (take (length et - m) (map ((!) ct) ?sc))"
      using sc by (rule sorted_wrt_take)
    then have "sorted_wrt t_le (map ((!) ct) (take (length et - m) ?sc))"
      by (simp only: take_map)
    then show ?thesis by (simp only: rev_map[symmetric] sorted_wrt_rev)
  qed
  have c: "sorted_wrt (\<lambda>a b. t_le b a) (map ((!) ct) (?A @ ?B))"
    unfolding map_append sorted_wrt_append
  proof (intro conjI ballI)
    show "sorted_wrt (\<lambda>a b. t_le b a) (map ((!) ct) ?A)"
      by (rule sorted_wrt_all_related) (use c1 in auto)
    show "sorted_wrt (\<lambda>a b. t_le b a) (map ((!) ct) ?B)" by (rule c2)
    fix x y assume "x \<in> set (map ((!) ct) ?A)" "y \<in> set (map ((!) ct) ?B)"
    with c1 show "t_le y x" by auto
  qed
  from e have e': "\<not> list_ex (\<lambda>(a, b). t_less b a)
                       (zip (butlast (map ((!) et) (?A @ ?B))) (tl (map ((!) et) (?A @ ?B))))"
    by (simp only: event_check_iff_sorted)
  from c have c': "\<not> list_ex (\<lambda>(a, b). t_less a b)
                       (zip (butlast (map ((!) ct) (?A @ ?B))) (tl (map ((!) ct) (?A @ ?B))))"
    by (simp only: censoring_check_iff_sorted)
  from R(1) e c e' c' show ?thesis by blast
qed

theorem permuted_observations_pass_ordering_checks_witness:
  "is_argsort t_le (on_times stable_argsorts) \<and> is_argsort (\<le>) (on_indices stable_argsorts)
   \<and> is_argsort (\<le>) (on_floats stable_argsorts)
   \<and> length [At 3, PosInf, PosInf] = length [PosInf, At 2, At 1]
   \<and> length [[1], [2], [3 :: real]] = length [PosInf, At 2, At 1]
   \<and> [PosInf, At 2, At 1] ! 0 = PosInf \<and> [At 3, PosInf, PosInf] ! 0 \<noteq> PosInf
   \<and> [PosInf, At 2, At 1] ! 1 \<noteq> PosInf \<and> [At 3, PosInf, PosInf] ! 1 = PosInf
   \<and> [PosInf, At 2, At 1] ! 2 \<noteq> PosInf \<and> [At 3, PosInf, PosInf] ! 2 = PosInf
   \<and> permute_observations_by_event_and_censoring_time stable_argsorts
         [PosInf, At 2, At 1] [At 3, PosInf, PosInf] [[1], [2], [3]]
       = Inr ([At 1, At 2, PosInf], [PosInf, PosInf, At 3], [[3], [2], [1]])
   \<and> sorted_wrt t_le [At 1, At 2, PosInf]
   \<and> sorted_wrt (\<lambda>a b. t_le b a) [PosInf, PosInf, At 3]"
proof -
  have len: "length [At 3, PosInf, PosInf] = length [PosInf, At 2, At 1]"
    "length [[1], [2], [3 :: real]] = length [PosInf, At 2, At 1]" by simp_all
  have cons: "\<forall>i < length [PosInf, At 2, At 1].
                ([PosInf, At 2, At 1] ! i = PosInf) = ([At 3, PosInf, PosInf] ! i \<noteq> PosInf)"
    by (simp add: less_Suc_eq)
  have inst: "[PosInf, At 2, At 1] ! 0 = PosInf \<and> [At 3, PosInf, PosInf] ! 0 \<noteq> PosInf
   \<and> [PosInf, At 2, At 1] ! 1 \<noteq> PosInf \<and> [At 3, PosInf, PosInf] ! 1 = PosInf
   \<and> [PosInf, At 2, At 1] ! 2 \<noteq> PosInf \<and> [At 3, PosInf, PosInf] ! 2 = PosInf"
    by simp
  have ev: "permute_observations_by_event_and_censoring_time stable_argsorts
         [PosInf, At 2, At 1] [At 3, PosInf, PosInf] [[1], [2], [3]]
       = Inr ([At 1, At 2, PosInf], [PosInf, PosInf, At 3], [[3], [2], [1]])"
  proof -
    have r1: "np_rank_by_value stable_argsorts [PosInf, At 2, At 1] = Inr [2, 1, 0]"
      by (simp add: np_rank_by_value_def stable_argsorts_def ex_sort_1 ex_sort_3 np_take_def Let_def)
    have r2: "np_rank_by_value stable_argsorts [At 3, PosInf, PosInf] = Inr [0, 1, 2]"
      by (simp add: np_rank_by_value_def stable_argsorts_def ex_sort_2 ex_sort_4 np_take_def Let_def)
    have on_f: "on_floats stable_argsorts = argsort_by (\<le>)"
      by (simp add: stable_argsorts_def)
    show ?thesis
      by (simp add: permute_observations_by_event_and_censoring_time_def r1 r2
          on_f ex_sort_5 ex_sort_6 np_take_def Let_def)
  qed
  from permuted_observations_pass_ordering_checks[OF stable_argsorts_valid len cons] ev
  have "sorted_wrt t_le [At 1, At 2, PosInf] \<and> sorted_wrt (\<lambda>a b. t_le b a) [PosInf, PosInf, At 3]"
    by auto
  with stable_argsorts_valid len inst ev show ?thesis by blast
qed

text \<open>
  C5, as amended: construction raises the \<^verbatim>\<open>ValueError\<close> of the violated invariant when the
  event times are not sorted ascending, else when the censoring times are not sorted
  descending, else when some individual is in no risk set (no finite event time \<open>t\<close>
  with \<open>t \<le>\<close> its censoring time and \<open>t \<le>\<close> its event time). Inconsistent censoring
  indicators are not checked by the constructor: they are rejected, with their own
  \<^verbatim>\<open>ValueError\<close>, by \<open>permute_observations_by_event_and_censoring_time\<close>.
\<close>

theorem constructor_rejects_unsorted_or_never_at_risk:
  assumes "length ct = length et"
  shows "(\<not> sorted_wrt t_le et \<longrightarrow>
            CoxModel_init et ct X = Inl (ValueError EventTimesNotSorted))
       \<and> (sorted_wrt t_le et \<and> \<not> sorted_wrt (\<lambda>a b. t_le b a) ct \<longrightarrow>
            CoxModel_init et ct X = Inl (ValueError CensoringTimesNotSorted))
       \<and> (sorted_wrt t_le et \<and> sorted_wrt (\<lambda>a b. t_le b a) ct
            \<and> (\<exists>i < length et. \<not> (\<exists>t \<in> set et. t \<noteq> PosInf \<and> t_le t (ct ! i) \<and> t_le t (et ! i)))
          \<longrightarrow> CoxModel_init et ct X = Inl (ValueError NeverInRiskSet))
       \<and> ((\<exists>i < length et. (et ! i = PosInf) = (ct ! i = PosInf)) \<longrightarrow>
            (\<forall>S. permute_observations_by_event_and_censoring_time S et ct X
                   = Inl (ValueError InconsistentCensoringIndicators)))"
proof (intro conjI impI)
  assume "\<not> sorted_wrt t_le et"
  then have "list_ex (\<lambda>(a, b). t_less b a) (zip (butlast et) (tl et))"
    by (simp only: event_check_iff_sorted[symmetric] not_not)
  then show "CoxModel_init et ct X = Inl (ValueError EventTimesNotSorted)"
    by (rule CoxModel_init_event_unsorted)
next
  assume a: "sorted_wrt t_le et \<and> \<not> sorted_wrt (\<lambda>a b. t_le b a) ct"
  from a have e: "\<not> list_ex (\<lambda>(a, b). t_less b a) (zip (butlast et) (tl et))"
    by (simp only: event_check_iff_sorted)
  from a have "\<not> sorted_wrt (\<lambda>a b. t_le b a) ct" by (rule conjunct2)
  then have c: "list_ex (\<lambda>(a, b). t_less a b) (zip (butlast ct) (tl ct))"
    by (simp only: censoring_check_iff_sorted[symmetric] not_not)
  from e c show "CoxModel_init et ct X = Inl (ValueError CensoringTimesNotSorted)"
    by (rule CoxModel_init_censoring_unsorted)
next
  assume a: "sorted_wrt t_le et \<and> sorted_wrt (\<lambda>a b. t_le b a) ct
            \<and> (\<exists>i < length et. \<not> (\<exists>t \<in> set et. t \<noteq> PosInf \<and> t_le t (ct ! i) \<and> t_le t (et ! i)))"
  from a have e: "\<not> list_ex (\<lambda>(a, b). t_less b a) (zip (butlast et) (tl et))"
    by (simp only: event_check_iff_sorted)
  from a have c: "\<not> list_ex (\<lambda>(a, b). t_less a b) (zip (butlast ct) (tl ct))"
    by (simp only: censoring_check_iff_sorted)
  from a have ex: "\<exists>i < length et. \<not> (\<exists>t \<in> set et. t \<noteq> PosInf \<and> t_le t (ct ! i) \<and> t_le t (et ! i))"
    by (elim conjE)
  have n: "\<not> list_all (\<lambda>a. 1 \<le> a) (count_risk_set_appearance et ct)"
  proof
    assume "list_all (\<lambda>a. 1 \<le> a) (count_risk_set_appearance et ct)"
    then have "\<forall>i < length et. \<exists>t \<in> set et. t \<noteq> PosInf \<and> t_le t (ct ! i) \<and> t_le t (et ! i)"
      by (simp only: never_in_risk_set_iff[OF assms])
    with ex show False by blast
  qed
  from e c n show "CoxModel_init et ct X = Inl (ValueError NeverInRiskSet)"
    by (rule CoxModel_init_never_in_risk_set)
next
  assume "\<exists>i < length et. (et ! i = PosInf) = (ct ! i = PosInf)"
  then obtain i where i: "i < length et" and e: "(et ! i = PosInf) = (ct ! i = PosInf)" by blast
  have "\<not> list_all (\<lambda>(e, c). (e = PosInf) = t_less c PosInf) (zip et ct)"
    unfolding list_all_length
  proof
    assume h: "\<forall>n < length (zip et ct). (\<lambda>(e, c). (e = PosInf) = t_less c PosInf) (zip et ct ! n)"
    from i assms have il: "i < length (zip et ct)" by simp
    from h[rule_format, OF il] have "(\<lambda>(e, c). (e = PosInf) = t_less c PosInf) (zip et ct ! i)" .
    with i assms have "(et ! i = PosInf) = (ct ! i \<noteq> PosInf)"
      by (simp add: t_less_PosInf_iff)
    with e show False by simp
  qed
  then show "\<forall>S. permute_observations_by_event_and_censoring_time S et ct X
                   = Inl (ValueError InconsistentCensoringIndicators)"
    by (intro allI permute_inconsistent)
qed

theorem constructor_rejects_unsorted_or_never_at_risk_witness:
  "length [PosInf, At 1] = length [At 2, At 1]
   \<and> \<not> sorted_wrt t_le [At 2, At 1]
   \<and> CoxModel_init [At 2, At 1] [PosInf, At 1] [[0], [1]] = Inl (ValueError EventTimesNotSorted)
   \<and> ([At 2, At 1] ! 1 = PosInf) = ([PosInf, At 1] ! 1 = PosInf)
   \<and> permute_observations_by_event_and_censoring_time stable_argsorts
         [At 2, At 1] [PosInf, At 1] [[0], [1]]
       = Inl (ValueError InconsistentCensoringIndicators)"
proof -
  have len: "length [PosInf, At 1] = length [At 2, At 1]" by simp
  have uns: "\<not> sorted_wrt t_le [At 2, At 1]" by simp
  have inc: "([At 2, At 1] ! 1 = PosInf) = ([PosInf, At 1] ! 1 = PosInf)" by simp
  then have ex: "\<exists>i < length [At 2, At 1]. ([At 2, At 1] ! i = PosInf) = ([PosInf, At 1] ! i = PosInf)"
    by (intro exI[of _ 1]) simp
  note T = constructor_rejects_unsorted_or_never_at_risk[OF len, of "[[0], [1]]"]
  have c1: "CoxModel_init [At 2, At 1] [PosInf, At 1] [[0], [1]]
                   = Inl (ValueError EventTimesNotSorted)"
    by (rule T[THEN conjunct1, rule_format, OF uns])
  have c4: "permute_observations_by_event_and_censoring_time stable_argsorts
         [At 2, At 1] [PosInf, At 1] [[0], [1]]
       = Inl (ValueError InconsistentCensoringIndicators)"
    by (rule T[THEN conjunct2, THEN conjunct2, THEN conjunct2, rule_format, OF ex])
  from len uns c1 inc c4 show ?thesis by (intro conjI)
qed

text \<open>
  C5 as stated fails for inconsistent censoring indicators: one individual with event time
  1 and censoring time 2, both finite, is accepted by the constructor, which goes on to
  build the derived state.
\<close>

theorem constructor_accepts_inconsistent_indicators:
  "[At 1] ! 0 \<noteq> PosInf \<and> [At 2] ! 0 \<noteq> PosInf
   \<and> CoxModel_init [At 1] [At 2] [[1]]
       = Inr \<lparr> n_event = 1, event_time = [At 1], censoring_time = [At 2],
               n_appearance_in_risk_set = [1], risk_set_end_index = [0],
               model_X = [[1]] \<rparr>"
  by (simp add: CoxModel_init_def count_risk_set_appearance_def)


text \<open>
  C7: in exact real arithmetic, for an accepted non-empty observation set in which every
  uncensored individual has censoring time \<open>+\<infinity>\<close>, a design matrix with one row for each
  individual, every \<open>\<beta>\<close> and every \<open>s\<close>: the log-likelihood and gradient computed
  from the linear predictor \<open>\<eta> = X \<beta>\<close> shifted by \<open>s\<close> are those computed from
  \<open>\<eta>\<close>, and the returned log-likelihood is the sum over the events \<open>k < n_event\<close> of
  \<open>\<eta>[k]\<close> minus the logarithm of the sum of \<open>exp \<eta>[i]\<close> over the risk set
  \<open>i = k, ..., risk_set_end_index[k]\<close>, at the unshifted \<open>\<eta>\<close>.
\<close>

theorem loglik_and_gradient_shift_invariant:
  assumes init: "CoxModel_init et ct X = Inr mdl"
    and lenc: "length ct = length et" and lenX: "length X = length et"
    and ne: "et \<noteq> []"
    and unc: "\<forall>i < length et. et ! i \<noteq> PosInf \<longrightarrow> ct ! i = PosInf"
  shows "(\<forall>s lo. loglik_and_gradient_from mdl (map (\<lambda>x. x + s) (X_dot X beta)) lo
                  = compute_loglik_and_gradient mdl beta lo)
       \<and> (\<exists>grad. compute_loglik_and_gradient mdl beta False
                 = Inr ((\<Sum>k < n_event mdl.
                           X_dot X beta ! k
                           - ln (\<Sum>i = k..nat (risk_set_end_index mdl ! k). exp (X_dot X beta ! i))),
                        Some grad))"
proof
  note A = accepted_model_facts[OF init lenc]
  show "\<forall>s lo. loglik_and_gradient_from mdl (map (\<lambda>x. x + s) (X_dot X beta)) lo
                  = compute_loglik_and_gradient mdl beta lo"
    by (simp add: compute_loglik_and_gradient_def A(6) loglik_and_gradient_from_shift)
next
  note A = accepted_model_facts[OF init lenc]
  note P = risk_set_end_index_props[OF init lenc[symmetric] unc]
  let ?n = "length et" and ?m = "n_event mdl" and ?r = "risk_set_end_index mdl"
  define eta where "eta = X_dot X beta"
  have leta: "length eta = ?n" by (simp add: eta_def X_dot_def lenX)
  have eta_ne: "eta \<noteq> []" using leta ne by auto
  from shift_log_hazard_nonempty[OF eta_ne] obtain mx where
    sh: "shift_log_hazard eta 0 = Inr (map (\<lambda>x. x - mx) eta)" by blast
  define lhi where "lhi = map (\<lambda>x. x - mx) eta"
  define h where "h = map exp lhi"
  have llhi: "length lhi = ?n" and lh: "length h = ?n" by (simp_all add: lhi_def h_def leta)
  have m1: "1 \<le> ?m" by (rule A(5)[OF ne])
  have rne: "?r \<noteq> []" using P(1) m1 by auto
  have bounds: "\<forall>k < length ?r. int (length ?r) - 1 \<le> ?r ! k \<and> ?r ! k \<le> int (length h) - 1"
    unfolding P(1) lh using P(3) P(4) by blast
  from sum_over_risk_set_in_range[OF bounds rne] obtain S where
    S: "sum_over_risk_set h ?r = Inr S" and lS: "length S = ?m"
    and Sk: "\<And>k. k < ?m \<Longrightarrow> S ! k = (\<Sum>i = k..nat (?r ! k). h ! i)"
    unfolding P(1) by blast
  have chi: "compute_hazard_increase_from mdl eta = Inr (lhi, h, S)"
    by (simp add: compute_hazard_increase_from_def sh lhi_def[symmetric] h_def[symmetric] S)
  have lt: "length (take ?m lhi) = length (map ln S)" using P(2) llhi lS by simp
  have sub: "np_sub (take ?m lhi) (map ln S) = Inr (map2 (-) (take ?m lhi) (map ln S))"
    by (rule np_sub_same_length[OF lt])
  have tk: "map2 (-) (take ?m lhi) (map ln S) ! k
              = eta ! k - ln (\<Sum>i = k..nat (?r ! k). exp (eta ! i))" if k: "k < ?m" for k
  proof -
    from P(3)[OF k] P(4)[OF k] k have rk: "k \<le> nat (?r ! k)" "nat (?r ! k) < ?n" by linarith+
    have kn: "k < ?n" using k P(2) by simp
    have "S ! k = (\<Sum>i = k..nat (?r ! k). h ! i)" by (rule Sk[OF k])
    also have "\<dots> = (\<Sum>i = k..nat (?r ! k). exp (eta ! i - mx))"
      by (rule sum.cong) (use rk leta in \<open>simp_all add: h_def lhi_def\<close>)
    finally have "ln (S ! k) = ln (\<Sum>i = k..nat (?r ! k). exp (eta ! i)) - mx"
      using ln_shifted_sum[OF rk(1), of "\<lambda>i. eta ! i" mx] by simp
    moreover have "map2 (-) (take ?m lhi) (map ln S) ! k = lhi ! k - ln (S ! k)"
      using k lS llhi P(2) by simp
    moreover have "lhi ! k = eta ! k - mx" using kn leta by (simp add: lhi_def)
    ultimately show ?thesis by simp
  qed
  have ll: "sum_list (map2 (-) (take ?m lhi) (map ln S))
            = (\<Sum>k < ?m. eta ! k - ln (\<Sum>i = k..nat (?r ! k). exp (eta ! i)))"
  proof -
    have l: "length (map2 (-) (take ?m lhi) (map ln S)) = ?m" using lt lS by simp
    have "sum_list (map2 (-) (take ?m lhi) (map ln S))
          = (\<Sum>k = 0..<?m. map2 (-) (take ?m lhi) (map ln S) ! k)"
      unfolding sum_list_sum_nth l ..
    also have "\<dots> = (\<Sum>k = 0..<?m. eta ! k - ln (\<Sum>i = k..nat (?r ! k). exp (eta ! i)))"
      by (rule sum.cong) (simp_all add: tk)
    finally show ?thesis by (simp add: atLeast0LessThan)
  qed
  define hm where "hm = HazardMatrix_init h S ?r (n_appearance_in_risk_set mdl)"
  have "\<exists>soe. sum_over_events hm = Inr soe \<and> length soe = length (hm_hazard_increase hm)"
  proof (rule sum_over_events_returns)
    show "hm_sum_over_risk_set hm \<noteq> []" using lS m1 by (auto simp: hm_def HazardMatrix_init_def)
    show "length (hm_n_appearance_in_risk_set hm) = length (hm_hazard_increase hm)"
      by (simp add: hm_def HazardMatrix_init_def A(2) lh)
    show "\<forall>a \<in> set (hm_n_appearance_in_risk_set hm).
            1 \<le> a \<and> a \<le> int (length (hm_sum_over_risk_set hm))"
      using A(2) A(3) A(4) by (auto simp: hm_def HazardMatrix_init_def lS in_set_conv_nth)
    show "hm_risk_set_end_index hm \<noteq> []" using rne by (simp add: hm_def HazardMatrix_init_def)
  qed
  then obtain soe where soe: "sum_over_events hm = Inr soe" and lsoe: "length soe = ?n"
    by (auto simp: hm_def HazardMatrix_init_def lh)
  define v where "v = replicate (min ?m (length (replicate (length X) (0::real)))) (1::real)
                        @ drop ?m (replicate (length X) 0)"
  have lv: "length v = ?n" using P(2) by (simp add: v_def lenX)
  have isub: "np_isub v soe = Inr (map2 (-) v soe)" by (simp add: np_isub_def lv lsoe)
  have isub': "np_isub (replicate (min ?m (length X)) 1 @ replicate (length X - ?m) 0) soe
               = Inr (map2 (-) v soe)"
    using isub by (simp add: v_def)
  have "compute_loglik_and_gradient mdl beta False
        = Inr (sum_list (map2 (-) (take ?m lhi) (map ln S)), Some (X_Tdot X (map2 (-) v soe)))"
    unfolding compute_loglik_and_gradient_def loglik_and_gradient_from_def A(6) eta_def[symmetric]
    by (simp add: chi sub Let_def hm_def[symmetric] soe isub')
  then show "\<exists>grad. compute_loglik_and_gradient mdl beta False
                 = Inr ((\<Sum>k < n_event mdl.
                           X_dot X beta ! k
                           - ln (\<Sum>i = k..nat (risk_set_end_index mdl ! k). exp (X_dot X beta ! i))),
                        Some grad)"
    unfolding ll eta_def by blast
qed

theorem loglik_and_gradient_shift_invariant_witness:
  "CoxModel_init [At 1, At 2, PosInf] [PosInf, PosInf, At 5] [[1], [0], [2]] = Inr example_model
   \<and> length [PosInf, PosInf, At 5] = length [At 1, At 2, PosInf]
   \<and> length [[1], [0], [2 :: real]] = length [At 1, At 2, PosInf]
   \<and> [At 1, At 2, PosInf] \<noteq> []
   \<and> [PosInf, PosInf, At 5] ! 0 = PosInf \<and> [PosInf, PosInf, At 5] ! 1 = PosInf
   \<and> [At 1, At 2, PosInf] ! 2 = PosInf
   \<and> loglik_and_gradient_from example_model (map (\<lambda>x. x + 7) (X_dot [[1], [0], [2]] [1])) False
       = compute_loglik_and_gradient example_model [1] False
   \<and> (\<exists>grad. compute_loglik_and_gradient example_model [1] False
         = Inr ((\<Sum>k < n_event example_model.
                   X_dot [[1], [0], [2]] [1] ! k
                   - ln (\<Sum>i = k..nat (risk_set_end_index example_model ! k).
                           exp (X_dot [[1], [0], [2]] [1] ! i))),
                Some grad))"
proof -
  have init: "CoxModel_init [At 1, At 2, PosInf] [PosInf, PosInf, At 5] [[1], [0], [2]]
              = Inr example_model"
    by (simp add: CoxModel_init_def count_risk_set_appearance_def example_model_def)
  have len: "length [PosInf, PosInf, At 5] = length [At 1, At 2, PosInf]"
    "length [[1], [0], [2 :: real]] = length [At 1, At 2, PosInf]" by simp_all
  have ne: "[At 1, At 2, PosInf] \<noteq> []" by simp
  have unc: "\<forall>i < length [At 1, At 2, PosInf].
         [At 1, At 2, PosInf] ! i \<noteq> PosInf \<longrightarrow> [PosInf, PosInf, At 5] ! i = PosInf"
    by (simp add: less_Suc_eq)
  have inst: "[PosInf, PosInf, At 5] ! 0 = PosInf \<and> [PosInf, PosInf, At 5] ! 1 = PosInf
   \<and> [At 1, At 2, PosInf] ! 2 = PosInf"
    by simp
  note T = loglik_and_gradient_shift_invariant[OF init len ne unc, of "[1]"]
  from T have a: "loglik_and_gradient_from example_model
                    (map (\<lambda>x. x + 7) (X_dot [[1], [0], [2]] [1])) False
                  = compute_loglik_and_gradient example_model [1] False"
    by (elim conjE allE)
  from T have b: "\<exists>grad. compute_loglik_and_gradient example_model [1] False
         = Inr ((\<Sum>k < n_event example_model.
                   X_dot [[1], [0], [2]] [1] ! k
                   - ln (\<Sum>i = k..nat (risk_set_end_index example_model ! k).
                           exp (X_dot [[1], [0], [2]] [1] ! i))),
                Some grad)"
    by (rule conjunct2)
  from init len ne inst a b show ?thesis by (intro conjI) simp_all
qed

text \<open>
  C1 (the implicit operations \<open>dot\<close>, \<open>Tdot\<close> and \<open>sum_over_events\<close> agree with the
  matrix of \<open>compute_matrix\<close> on every valid sorted observation set), evaluated at tied
  times with \<open>hazard_increase = [1, 1]\<close>. With an event at time 1 and a censoring at
  time 1 the constructor accepts, \<open>compute_matrix\<close> gives \<open>[[1, 0]]\<close>, whose transpose
  times \<open>[1]\<close> is \<open>[1, 0]\<close>, and \<open>Tdot [1]\<close> gives \<open>[1, 1]\<close>. With two events at time
  1 the constructor accepts, the column sums of the matrix are \<open>[1/2, 3/2]\<close> and
  \<open>sum_over_events\<close> gives \<open>[3/2, 3/2]\<close>.
\<close>

theorem implicit_matrix_disagrees_at_ties:
  "CoxModel_init [At 1, PosInf] [PosInf, At 1] [[1], [2]]
     = Inr \<lparr> n_event = 1, event_time = [At 1, PosInf], censoring_time = [PosInf, At 1],
             n_appearance_in_risk_set = [1, 1], risk_set_end_index = [0],
             model_X = [[1], [2]] \<rparr>
   \<and> sum_over_risk_set [1, 1] [0] = Inr [1]
   \<and> compute_matrix (HazardMatrix_init [1, 1] [1] [0] [1, 1]) = Inr [[1, 0]]
   \<and> hm_Tdot (HazardMatrix_init [1, 1] [1] [0] [1, 1]) [1] = Inr [1, 1]
   \<and> mat_T_vec [[1, 0]] 2 [1] = [1, 0]
   \<and> CoxModel_init [At 1, At 1] [PosInf, PosInf] [[1], [2]]
     = Inr \<lparr> n_event = 2, event_time = [At 1, At 1], censoring_time = [PosInf, PosInf],
             n_appearance_in_risk_set = [2, 2], risk_set_end_index = [1, 1],
             model_X = [[1], [2]] \<rparr>
   \<and> sum_over_risk_set [1, 1] [1, 1] = Inr [2, 1]
   \<and> compute_matrix (HazardMatrix_init [1, 1] [2, 1] [1, 1] [2, 2]) = Inr [[1 / 2, 1 / 2], [0, 1]]
   \<and> sum_over_events (HazardMatrix_init [1, 1] [2, 1] [1, 1] [2, 2]) = Inr [3 / 2, 3 / 2]
   \<and> column_sums [[1 / 2, 1 / 2], [0, 1]] 2 = [1 / 2, 3 / 2]"
proof -
  have a: "CoxModel_init [At 1, At 1] [PosInf, PosInf] [[1], [2]]
     = Inr \<lparr> n_event = 2, event_time = [At 1, At 1], censoring_time = [PosInf, PosInf],
             n_appearance_in_risk_set = [2, 2], risk_set_end_index = [1, 1],
             model_X = [[1], [2]] \<rparr>"
    by (simp add: CoxModel_init_def count_risk_set_appearance_def)
  have b: "sum_over_risk_set [1, 1] [1, 1] = Inr [2, 1]"
    by (simp add: sum_over_risk_set_def np_take_def np_cumsum_def py_from_def py_upto_def
        np_reverse_cumsum_def np_add_def)
  have c: "compute_matrix (HazardMatrix_init [1, 1] [2, 1] [1, 1] [2, 2])
           = Inr [[1 / 2, 1 / 2], [0, 1]]"
    by (simp add: compute_matrix_def HazardMatrix_init_def np_outer_def np_recip_def np_triu_def
      np_index_def py_assign_from_def Let_def upt_rec)
  have d: "sum_over_events (HazardMatrix_init [1, 1] [2, 1] [1, 1] [2, 2]) = Inr [3 / 2, 3 / 2]"
    by (simp add: sum_over_events_def HazardMatrix_init_def np_mul_def np_broadcast_def np_recip_def
      np_cumsum_def np_take_def np_index_def py_assign_from_def Let_def)
  have e: "column_sums [[1 / 2, 1 / 2], [0, 1]] 2 = [1 / 2, 3 / 2]"
    by (simp add: column_sums_def upt_rec)
  from tie_model tie_S tie_M tie_Tdot tie_MT a b c d e show ?thesis by (intro conjI)
qed

end
